theory Spec2Isabelle
  imports Complex_Main "HOL-Library.Word"
begin

section \<open>Blobs\<close>

text \<open>
  A \<open>Blob\<close> of the platform is an immutable byte sequence with a self-reported MIME type.
  \<open>new Blob(parts, {type})\<close> concatenates the bytes of its parts.
\<close>

type_synonym byte = "8 word"

record blob =
  btype :: string
  bdata :: "byte list"

definition blob_size :: "blob \<Rightarrow> nat" where
  "blob_size b = length (bdata b)"

definition newBlob :: "blob list \<Rightarrow> string \<Rightarrow> blob" where
  "newBlob parts ty = \<lparr>btype = ty, bdata = concat (map bdata parts)\<rparr>"

text \<open>\<open>String.prototype.includes\<close>: does \<open>sub\<close> occur as a contiguous run of \<open>s\<close>?\<close>

fun str_includes :: "string \<Rightarrow> string \<Rightarrow> bool" where
  "str_includes [] sub = (sub = [])"
| "str_includes (c # s) sub = (take (length sub) (c # s) = sub \<or> str_includes s sub)"

section \<open>useAudioRecording.ts: the tail-retention segmenter\<close>

text \<open>
  The options of the hook. \<open>segmentDurationSec\<close> is an optional JavaScript number;
  \<open>opts?.segmentDurationSec || 5\<close> replaces an absent or zero value by 5.
\<close>

record opts =
  streamToServer :: bool
  segmentDurationSec :: "real option"

definition timesliceMs :: nat where
  "timesliceMs = 250"

definition overlapMs :: nat where
  "overlapMs = 1000"

definition overlapCount :: nat where
  "overlapCount = nat \<lceil>real overlapMs / real timesliceMs\<rceil>"

definition segmentTargetMs :: "opts \<Rightarrow> real" where
  "segmentTargetMs os =
     max 1000 ((case segmentDurationSec os of
                  None \<Rightarrow> 5
                | Some d \<Rightarrow> if d = 0 then 5 else d) * 1000)"

text \<open>The refs of the hook that the recorder's handlers read and write.\<close>

record recording =
  chunksRef :: "blob list"
  segmentChunksRef :: "blob list"
  segmentElapsedMsRef :: nat

definition initial :: recording where
  "initial = \<lparr>chunksRef = [], segmentChunksRef = [], segmentElapsedMsRef = 0\<rparr>"

text \<open>
  \<open>recorder.ondataavailable\<close>. The result pairs the new refs with the segment handed to
  \<open>sendChunkToTranscription\<close>, if any; the segment is given as the list of chunks that
  \<open>new Blob(segmentChunksRef.current, ...)\<close> concatenates. \<open>xs.slice(-keep)\<close> with
  \<open>0 < keep\<close> is the last \<open>keep\<close> elements of \<open>xs\<close>.
\<close>

definition ondataavailable :: "opts \<Rightarrow> blob \<Rightarrow> recording \<Rightarrow> recording \<times> blob list option" where
  "ondataavailable os chunk s =
     (if 0 < blob_size chunk then
        let s1 = s\<lparr>chunksRef := chunksRef s @ [chunk]\<rparr> in
        if streamToServer os then
          let s2 = s1\<lparr>segmentChunksRef := segmentChunksRef s1 @ [chunk],
                      segmentElapsedMsRef := segmentElapsedMsRef s1 + timesliceMs\<rparr> in
          if segmentTargetMs os \<le> real (segmentElapsedMsRef s2) then
            let seg = segmentChunksRef s2;
                keep = min (length seg) overlapCount;
                tail = (if 0 < keep then drop (length seg - keep) seg else [])
            in (s2\<lparr>segmentChunksRef := tail, segmentElapsedMsRef := keep * timesliceMs\<rparr>,
                Some seg)
          else (s2, None)
        else (s1, None)
      else (s, None))"

text \<open>\<open>recorder.onstop\<close>, as far as the segment refs are concerned.\<close>

definition onstop :: "opts \<Rightarrow> recording \<Rightarrow> recording \<times> blob list option" where
  "onstop os s =
     (if streamToServer os \<and> 0 < length (segmentChunksRef s) then
        (s\<lparr>segmentChunksRef := [], segmentElapsedMsRef := 0\<rparr>, Some (segmentChunksRef s))
      else (s, None))"

text \<open>
  Feeding a sequence of \<open>dataavailable\<close> events: the final refs and, for each event in
  order, what it sealed.
\<close>

fun feed :: "opts \<Rightarrow> blob list \<Rightarrow> recording \<Rightarrow> recording \<times> blob list option list" where
  "feed os [] s = (s, [])"
| "feed os (c # cs) s =
     (case ondataavailable os c s of
        (s1, e) \<Rightarrow> (case feed os cs s1 of (s2, es) \<Rightarrow> (s2, e # es)))"

definition sealed :: "blob list option list \<Rightarrow> blob list list" where
  "sealed es = concat (map (\<lambda>e. case e of None \<Rightarrow> [] | Some seg \<Rightarrow> [seg]) es)"

text \<open>
  One recording from start to stop: the segments sealed while chunks arrive, followed
  by the one that \<open>onstop\<close> flushes.
\<close>

definition session :: "opts \<Rightarrow> blob list \<Rightarrow> blob list list" where
  "session os cs =
     (case feed os cs initial of
        (s, es) \<Rightarrow> sealed (es @ [snd (onstop os s)]))"

text \<open>
  The non-overlap region of a segment is what follows its carried-over prefix. The first
  segment carries nothing over; a later one starts with the chunks retained when its
  predecessor was sealed, \<open>min(length, overlapCount)\<close> of them.
\<close>

fun regions :: "nat \<Rightarrow> 'a list list \<Rightarrow> 'a list list" where
  "regions k [] = []"
| "regions k (seg # segs) = drop k seg # regions (min (length seg) overlapCount) segs"

definition nonOverlapRegions :: "'a list list \<Rightarrow> 'a list list" where
  "nonOverlapRegions segs = regions 0 segs"

text \<open>
  Bookkeeping used in the proofs below: the elapsed time is in step with the buffer;
  each segment of a list starts with the last \<open>overlapCount\<close> chunks of the one before;
  the buffer starts with the tail of the segment sealed last.
\<close>

definition paced :: "recording \<Rightarrow> bool" where
  "paced s = (segmentElapsedMsRef s = length (segmentChunksRef s) * timesliceMs)"

fun chained :: "'a list list \<Rightarrow> bool" where
  "chained (a # b # rest) =
     (overlapCount \<le> length a \<and> overlapCount \<le> length b \<and>
      take overlapCount b = drop (length a - overlapCount) a \<and> chained (b # rest))"
| "chained _ = True"

definition linked :: "blob list list \<Rightarrow> blob list \<Rightarrow> bool" where
  "linked prev buf =
     (case prev of
        [] \<Rightarrow> True
      | p # _ \<Rightarrow> overlapCount \<le> length p \<and> overlapCount \<le> length buf \<and>
                 take overlapCount buf = drop (length p - overlapCount) p)"

text \<open>Concrete inputs: distinct non-empty chunks, and options with streaming switched on.\<close>

definition testChunk :: "nat \<Rightarrow> blob" where
  "testChunk i = \<lparr>btype = ''audio/webm;codecs=opus'', bdata = [of_nat i, 0]\<rparr>"

definition chunksTo :: "nat \<Rightarrow> blob list" where
  "chunksTo n = map testChunk [1..<Suc n]"

definition streaming :: "real option \<Rightarrow> opts" where
  "streaming d = \<lparr>streamToServer = True, segmentDurationSec = d\<rparr>"

section \<open>AudioCapture component: merging transcriptions into the subtitles\<close>

text \<open>
  JavaScript strings are sequences of UTF-16 code units. \<open>isWhiteSpace\<close> is the class
  \<open>\s\<close> of a regular expression, which is also what \<open>trim\<close> strips: the
  white-space and line-terminator code points.
\<close>

type_synonym jsstring = "16 word list"

definition isWhiteSpace :: "16 word \<Rightarrow> bool" where
  "isWhiteSpace c =
     (c = 0x9 \<or> c = 0xA \<or> c = 0xB \<or> c = 0xC \<or> c = 0xD \<or> c = 0x20 \<or> c = 0xA0 \<or>
      c = 0x1680 \<or> (0x2000 \<le> c \<and> c \<le> 0x200A) \<or> c = 0x2028 \<or> c = 0x2029 \<or>
      c = 0x202F \<or> c = 0x205F \<or> c = 0x3000 \<or> c = 0xFEFF)"

text \<open>\<open>s.replace(/\s+/g, ' ')\<close>: every maximal run of white space becomes one space.\<close>

function collapseWhitespace :: "jsstring \<Rightarrow> jsstring" where
  "collapseWhitespace [] = []"
| "collapseWhitespace (c # cs) =
     (if isWhiteSpace c then 0x20 # collapseWhitespace (dropWhile isWhiteSpace cs)
      else c # collapseWhitespace cs)"
  by pat_completeness auto
termination
  by (relation "measure length") (auto simp: length_dropWhile_le less_Suc_eq_le)

definition trim :: "jsstring \<Rightarrow> jsstring" where
  "trim s = rev (dropWhile isWhiteSpace (rev (dropWhile isWhiteSpace s)))"

text \<open>
  Of a transcription response only \<open>text\<close> is read; \<open>r?.text || ''\<close> turns an absent
  response or an absent text into the empty string.
\<close>

record transcriptionResponse =
  resp_text :: "jsstring option"

definition textOf :: "transcriptionResponse option \<Rightarrow> jsstring" where
  "textOf r = (case r of None \<Rightarrow> [] | Some x \<Rightarrow> (case resp_text x of None \<Rightarrow> [] | Some s \<Rightarrow> s))"

definition normalizeText :: "jsstring \<Rightarrow> jsstring" where
  "normalizeText s = trim (collapseWhitespace s)"

text \<open>
  The \<open>onTranscription\<close> callback with the state update it passes to \<open>setSubtitles\<close>.
  \<open>prev[prev.length - 1] || ''\<close> is the last line, or the empty string when there is
  none; \<open>xs.slice(-200)\<close> keeps the last 200 elements.
\<close>

definition onTranscription :: "transcriptionResponse option \<Rightarrow> jsstring list \<Rightarrow> jsstring list" where
  "onTranscription r prev =
     (let t = normalizeText (textOf r) in
      if t = [] then prev
      else
        let lastLine = (if prev = [] then [] else last prev) in
        if t = lastLine then prev
        else
          let merged = prev @ [t] in drop (length merged - 200) merged)"

text \<open>The subtitles after a sequence of responses, starting from the initial \<open>[]\<close>.\<close>

definition merges :: "transcriptionResponse option list \<Rightarrow> jsstring list" where
  "merges rs = foldl (\<lambda>prev r. onTranscription r prev) [] rs"

text \<open>
  Bookkeeping for the proofs: a string whose white space is single spaces only, a string
  without white space at either end, and the invariant of the subtitle list.
\<close>

fun tidy :: "jsstring \<Rightarrow> bool" where
  "tidy [] = True"
| "tidy (c # cs) =
     ((if isWhiteSpace c then c = 0x20 \<and> (cs = [] \<or> \<not> isWhiteSpace (hd cs)) else True) \<and>
      tidy cs)"

definition trimmed :: "jsstring \<Rightarrow> bool" where
  "trimmed s = (s = [] \<or> (\<not> isWhiteSpace (hd s) \<and> \<not> isWhiteSpace (last s)))"

definition settled :: "jsstring list \<Rightarrow> bool" where
  "settled T = (distinct_adj T \<and> length T \<le> 200 \<and> list_all (\<lambda>l. normalizeText l = l) T)"

text \<open>Concrete inputs: ASCII text as code units, and a response carrying it.\<close>

definition utf16 :: "string \<Rightarrow> jsstring" where
  "utf16 s = map (\<lambda>c. of_nat (of_char c)) s"

definition said :: "string \<Rightarrow> transcriptionResponse option" where
  "said s = Some \<lparr>resp_text = Some (utf16 s)\<rparr>"

section \<open>audioProcessing.ts: conversion to 16-bit PCM in a WAV container\<close>

definition TARGET_SAMPLE_RATE :: nat where
  "TARGET_SAMPLE_RATE = 16000"

text \<open>
  A \<open>DataView\<close> over an \<open>ArrayBuffer\<close> is a list of bytes updated in place. All
  multi-byte writes of the file pass \<open>littleEndian = true\<close>: the low byte comes first.
  The setters convert their argument as the platform does: \<open>ToUint16\<close> and
  \<open>ToUint32\<close> reduce modulo \<open>2^16\<close> and \<open>2^32\<close>, \<open>ToInt16\<close> drops the fraction
  (rounding towards zero) and reduces modulo \<open>2^16\<close>, which is the two's complement
  bit pattern. Every write of \<open>encodeWavBuffer\<close> lies inside the buffer it allocates, so
  the \<open>RangeError\<close> of an out-of-range offset does not arise.
\<close>

type_synonym dataView = "byte list"

definition setUint8 :: "dataView \<Rightarrow> nat \<Rightarrow> nat \<Rightarrow> dataView" where
  "setUint8 view byteOffset v = view[byteOffset := of_nat (v mod 256)]"

definition setUint16 :: "dataView \<Rightarrow> nat \<Rightarrow> nat \<Rightarrow> dataView" where
  "setUint16 view byteOffset v =
     (let u = v mod 65536 in
      view[byteOffset := of_nat (u mod 256), byteOffset + 1 := of_nat (u div 256)])"

definition setUint32 :: "dataView \<Rightarrow> nat \<Rightarrow> nat \<Rightarrow> dataView" where
  "setUint32 view byteOffset v =
     (let u = v mod 4294967296 in
      view[byteOffset := of_nat (u mod 256),
           byteOffset + 1 := of_nat (u div 256 mod 256),
           byteOffset + 2 := of_nat (u div 65536 mod 256),
           byteOffset + 3 := of_nat (u div 16777216)])"

definition js_truncate :: "real \<Rightarrow> int" where
  "js_truncate x = (if x < 0 then \<lceil>x\<rceil> else \<lfloor>x\<rfloor>)"

definition setInt16 :: "dataView \<Rightarrow> nat \<Rightarrow> real \<Rightarrow> dataView" where
  "setInt16 view byteOffset v =
     (let u = nat (js_truncate v mod 65536) in
      view[byteOffset := of_nat (u mod 256), byteOffset + 1 := of_nat (u div 256)])"

text \<open>The matching little-endian readers of a \<open>DataView\<close>, used to state what was written.\<close>

definition getUint16 :: "dataView \<Rightarrow> nat \<Rightarrow> nat" where
  "getUint16 view byteOffset = unat (view ! byteOffset) + 256 * unat (view ! (byteOffset + 1))"

definition getUint32 :: "dataView \<Rightarrow> nat \<Rightarrow> nat" where
  "getUint32 view byteOffset =
     unat (view ! byteOffset) + 256 * unat (view ! (byteOffset + 1)) +
     65536 * unat (view ! (byteOffset + 2)) + 16777216 * unat (view ! (byteOffset + 3))"

definition getInt16 :: "dataView \<Rightarrow> nat \<Rightarrow> int" where
  "getInt16 view byteOffset =
     (let u = int (getUint16 view byteOffset) in if 32768 \<le> u then u - 65536 else u)"

text \<open>\<open>TextEncoder.encode\<close> on the ASCII tags of the header, and \<open>writeString\<close>.\<close>

definition encode :: "string \<Rightarrow> nat list" where
  "encode str = map of_char str"

definition writeString :: "dataView \<Rightarrow> nat \<Rightarrow> string \<Rightarrow> dataView" where
  "writeString view offset str =
     foldl (\<lambda>v (index, byte). setUint8 v (offset + index) byte) view (enumerate 0 (encode str))"

text \<open>
  Samples are modelled as real numbers. A finite 32-bit float has a 24-bit significand,
  so its products with \<open>0x8000\<close> and \<open>0x7fff\<close> are exact in double precision and
  agree with the products of reals; infinities clamp like large reals. A \<open>NaN\<close>
  sample, which passes \<open>Math.min\<close> and \<open>Math.max\<close> unchanged and is written as 0,
  is not a number and has no counterpart here. The loop runs over the indices
  \<open>0 .. input.length - 1\<close>.
\<close>

definition floatTo16BitPCM :: "dataView \<Rightarrow> nat \<Rightarrow> real list \<Rightarrow> dataView" where
  "floatTo16BitPCM output offset input =
     foldl (\<lambda>out i.
              let clamped = max (- 1) (min 1 (input ! i))
              in setInt16 out (offset + i * 2)
                   (if clamped < 0 then clamped * 0x8000 else clamped * 0x7fff))
       output [0..<length input]"

text \<open>
  An \<open>AudioBuffer\<close>: its sample rate and one list of samples per channel, all of the
  buffer's length.
\<close>

record audioBuffer =
  sampleRate :: nat
  channelData :: "real list list"

definition numberOfChannels :: "audioBuffer \<Rightarrow> nat" where
  "numberOfChannels b = length (channelData b)"

definition buffer_length :: "audioBuffer \<Rightarrow> nat" where
  "buffer_length b = (case channelData b of [] \<Rightarrow> 0 | c # _ \<Rightarrow> length c)"

definition getChannelData :: "audioBuffer \<Rightarrow> nat \<Rightarrow> real list" where
  "getChannelData b channel = channelData b ! channel"

definition encodeWavBuffer :: "audioBuffer \<Rightarrow> byte list" where
  "encodeWavBuffer b =
     (let channelData = getChannelData b 0;
          byteLength = length channelData * 2;
          view = replicate (44 + byteLength) 0;
          view = writeString view 0 ''RIFF'';
          view = setUint32 view 4 (36 + byteLength);
          view = writeString view 8 ''WAVE'';
          view = writeString view 12 ''fmt '';
          view = setUint32 view 16 16;
          view = setUint16 view 20 1;
          view = setUint16 view 22 1;
          view = setUint32 view 24 (sampleRate b);
          view = setUint32 view 28 (sampleRate b * 2);
          view = setUint16 view 32 2;
          view = setUint16 view 34 16;
          view = writeString view 36 ''data'';
          view = setUint32 view 40 byteLength
      in floatTo16BitPCM view 44 channelData)"

definition mixToMono :: "audioBuffer \<Rightarrow> audioBuffer" where
  "mixToMono b =
     (if numberOfChannels b = 1 then b
      else \<lparr>sampleRate = sampleRate b,
             channelData =
               [map (\<lambda>i. (\<Sum>ch\<leftarrow>channelData b. ch ! i) / real (length (channelData b)))
                  [0..<buffer_length b]]\<rparr>)"

text \<open>
  What the browser and the transcription server contribute. \<open>decodeAudioData\<close>
  rejects bytes it cannot decode (\<open>None\<close>); \<open>frameCount\<close> is
  \<open>Math.ceil(buffer.duration * sampleRate)\<close> as the platform computes it, in double
  precision (the product can round up past a whole number, so this is not always the
  exact ceiling); \<open>renderSample\<close> is the sample that the offline rendering of a
  source buffer at a rate produces at an index;
  \<open>transcribeBlob\<close> of the transcription service either throws an \<open>Error\<close> with a
  message or returns the response.
\<close>

datatype error = DecodeError | NotSupportedError

record platform =
  decodeAudioData :: "byte list \<Rightarrow> audioBuffer option"
  frameCount :: "audioBuffer \<Rightarrow> nat \<Rightarrow> nat"
  renderSample :: "audioBuffer \<Rightarrow> nat \<Rightarrow> nat \<Rightarrow> real"
  transcribeBlob :: "blob \<Rightarrow> string + transcriptionResponse"

text \<open>
  \<open>resampleBuffer\<close> asks an \<open>OfflineAudioContext\<close> with one channel, the target rate
  and \<open>Math.ceil(duration * sampleRate)\<close> frames to render the mono mix; the rendered buffer
  has that rate, one channel and that many frames. The context cannot be constructed
  with zero frames (\<open>NotSupportedError\<close>).
\<close>

definition resampleBuffer :: "platform \<Rightarrow> audioBuffer \<Rightarrow> nat \<Rightarrow> error + audioBuffer" where
  "resampleBuffer pf buffer rate =
     (let frames = frameCount pf buffer rate in
      if frames = 0 then Inl NotSupportedError
      else
        let monoSourceBuffer = mixToMono buffer
        in Inr \<lparr>sampleRate = rate,
                 channelData = [map (renderSample pf monoSourceBuffer rate) [0..<frames]]\<rparr>)"

text \<open>
  \<open>ensureWavBlob\<close>; its second parameter defaults to \<open>TARGET_SAMPLE_RATE\<close>, and the
  only caller leaves it out.
\<close>

definition ensureWavBlob :: "platform \<Rightarrow> blob \<Rightarrow> nat \<Rightarrow> error + blob" where
  "ensureWavBlob pf blob rate =
     (if btype blob \<noteq> [] \<and> str_includes (btype blob) ''wav'' then Inr blob
      else
        case decodeAudioData pf (bdata blob) of
          None \<Rightarrow> Inl DecodeError
        | Some decoded \<Rightarrow>
            (case resampleBuffer pf decoded rate of
               Inl e \<Rightarrow> Inl e
             | Inr resampled \<Rightarrow>
                 Inr \<lparr>btype = ''audio/wav'', bdata = encodeWavBuffer resampled\<rparr>))"

section \<open>useAudioRecording.ts: uploading a segment\<close>

text \<open>
  \<open>sendChunkToTranscription\<close>. The outcome records the payload handed to
  \<open>transcribeBlob\<close> (the upload), the response handed to \<open>onTranscription\<close> and the
  message written to the \<open>error\<close> field of the state; \<open>None\<close> means that the step
  did not happen.
\<close>

record sendOutcome =
  posted :: "blob option"
  delivered :: "transcriptionResponse option"
  uploadError :: "string option"

definition sendChunkToTranscription :: "platform \<Rightarrow> blob \<Rightarrow> sendOutcome" where
  "sendChunkToTranscription pf chunk =
     (if blob_size chunk = 0 then \<lparr>posted = None, delivered = None, uploadError = None\<rparr>
      else
        let payload =
              (if \<not> str_includes (btype chunk) ''wav'' then
                 (case ensureWavBlob pf chunk TARGET_SAMPLE_RATE of
                    Inr wav \<Rightarrow> wav
                  | Inl conversionError \<Rightarrow> chunk)
               else chunk)
        in case transcribeBlob pf payload of
             Inr response \<Rightarrow>
               \<lparr>posted = Some payload, delivered = Some response, uploadError = None\<rparr>
           | Inl message \<Rightarrow>
               \<lparr>posted = Some payload, delivered = None,
                uploadError = Some (''Upload failed: '' @ message)\<rparr>)"

text \<open>
  For the proofs: the number that the loop hands to \<open>setInt16\<close> for one sample, and the
  loop stopped after \<open>n\<close> rounds.
\<close>

definition scale16 :: "real \<Rightarrow> real" where
  "scale16 x =
     (let clamped = max (- 1) (min 1 x)
      in if clamped < 0 then clamped * 0x8000 else clamped * 0x7fff)"

definition pcmUpTo :: "dataView \<Rightarrow> nat \<Rightarrow> real list \<Rightarrow> nat \<Rightarrow> dataView" where
  "pcmUpTo output offset input n =
     foldl (\<lambda>out i. setInt16 out (offset + i * 2) (scale16 (input ! i))) output [0..<n]"

text \<open>For the proofs: the buffer of \<open>encodeWavBuffer\<close> when the samples are about to be written.\<close>

definition header :: "nat \<Rightarrow> nat \<Rightarrow> dataView" where
  "header rate byteLength =
     (let view = replicate (44 + byteLength) 0;
          view = writeString view 0 ''RIFF'';
          view = setUint32 view 4 (36 + byteLength);
          view = writeString view 8 ''WAVE'';
          view = writeString view 12 ''fmt '';
          view = setUint32 view 16 16;
          view = setUint16 view 20 1;
          view = setUint16 view 22 1;
          view = setUint32 view 24 rate;
          view = setUint32 view 28 (rate * 2);
          view = setUint16 view 32 2;
          view = setUint16 view 34 16;
          view = writeString view 36 ''data''
      in setUint32 view 40 byteLength)"

text \<open>
  Concrete inputs: a stereo 44.1 kHz WAV file of no samples that reports \<open>audio/wav\<close>, a
  platform that decodes nothing, and one that decodes every non-empty input to two
  stereo frames at 8 kHz and renders by repeating each frame.
\<close>

definition stereoWav :: blob where
  "stereoWav =
     \<lparr>btype = ''audio/wav'',
      bdata = [0x52, 0x49, 0x46, 0x46, 0x24, 0x00, 0x00, 0x00, 0x57, 0x41, 0x56, 0x45,
               0x66, 0x6D, 0x74, 0x20, 0x10, 0x00, 0x00, 0x00, 0x01, 0x00, 0x02, 0x00,
               0x44, 0xAC, 0x00, 0x00, 0x10, 0xB1, 0x02, 0x00, 0x04, 0x00, 0x10, 0x00,
               0x64, 0x61, 0x74, 0x61, 0x00, 0x00, 0x00, 0x00]\<rparr>"

definition deafPlatform :: platform where
  "deafPlatform =
     \<lparr>decodeAudioData = (\<lambda>bytes. None),
      frameCount = (\<lambda>source rate. 0),
      renderSample = (\<lambda>source rate i. 0),
      transcribeBlob = (\<lambda>payload. Inr \<lparr>resp_text = Some (utf16 ''ok'')\<rparr>)\<rparr>"

definition toyPlatform :: platform where
  "toyPlatform =
     \<lparr>decodeAudioData =
        (\<lambda>bytes. if bytes = [] then None
                 else Some \<lparr>sampleRate = 8000, channelData = [[1 / 2, - 1], [1 / 2, 1]]\<rparr>),
      frameCount = (\<lambda>source rate. 2 * buffer_length source),
      renderSample = (\<lambda>source rate i. getChannelData source 0 ! (i div 2)),
      transcribeBlob = (\<lambda>payload. Inr \<lparr>resp_text = Some (utf16 ''ok'')\<rparr>)\<rparr>"

definition toyWav :: blob where
  "toyWav =
     \<lparr>btype = ''audio/wav'',
      bdata = encodeWavBuffer \<lparr>sampleRate = 16000, channelData = [[1 / 2, 1 / 2, 0, 0]]\<rparr>\<rparr>"

section \<open>useAudioRecording.ts: live subtitles with one recorder per segment\<close>

text \<open>
  \<open>startLiveSubtitles\<close> runs a loop of short-lived recorders. Each is started without
  a timeslice, so the platform keeps what it records (\<open>gathered\<close>) and delivers it in
  one \<open>dataavailable\<close> event when the recorder is stopped; \<open>chunks\<close> is the array of
  the closure that the handler fills. A recorder is identified by its position in the
  list of all recorders created so far.
\<close>

datatype recordingState = inactive | recording

record mediaRecorder =
  rec_state :: recordingState
  gathered :: "byte list"
  chunks :: "blob list"

text \<open>
  What the handlers ask of their surroundings: whether the hook has a stream, whether
  the stream still has an audio track, the MIME type that
  \<open>getBestMimeTypeForFormat('webm_opus')\<close> finds supported, and whether constructing a
  \<open>MediaRecorder\<close> throws (the error text then ends with the message of the
  exception, which is left out here).
\<close>

record environment =
  stream :: bool
  audioTrack :: bool
  mime :: "string option"
  recorderThrows :: bool

text \<open>
  The refs and the state of the hook that live subtitles use, with the log of the blobs
  handed to \<open>sendChunkToTranscription\<close>, in call order.
\<close>

record live =
  liveLoopActiveRef :: bool
  liveRecorderRef :: "nat option"
  liveSubtitlesEnabled :: bool
  recorders :: "mediaRecorder list"
  sent :: "blob list"
  liveError :: "string option"

definition liveInitial :: live where
  "liveInitial =
     \<lparr>liveLoopActiveRef = False, liveRecorderRef = None, liveSubtitlesEnabled = False,
      recorders = [], sent = [], liveError = None\<rparr>"

definition mimeOf :: "environment \<Rightarrow> string" where
  "mimeOf env = (case mime env of None \<Rightarrow> [] | Some m \<Rightarrow> m)"

definition startSegmentRecorder :: "environment \<Rightarrow> live \<Rightarrow> live" where
  "startSegmentRecorder env s =
     (if \<not> liveLoopActiveRef s then s
      else if \<not> audioTrack env then
        s\<lparr>liveError := Some ''Lost audio track during live subtitles.'',
          liveLoopActiveRef := False, liveSubtitlesEnabled := False\<rparr>
      else if recorderThrows env then
        s\<lparr>liveError := Some ''Live subtitle recorder failed'',
          liveLoopActiveRef := False, liveSubtitlesEnabled := False\<rparr>
      else
        s\<lparr>liveRecorderRef := Some (length (recorders s)),
          recorders := recorders s @ [\<lparr>rec_state = recording, gathered = [], chunks = []\<rparr>]\<rparr>)"

text \<open>The handlers that \<open>startSegmentRecorder\<close> installs on recorder \<open>r\<close>.\<close>

definition live_ondataavailable :: "nat \<Rightarrow> blob \<Rightarrow> live \<Rightarrow> live" where
  "live_ondataavailable r data s =
     (if 0 < blob_size data then
        s\<lparr>recorders := (recorders s)[r := (recorders s ! r)\<lparr>chunks := chunks (recorders s ! r) @ [data]\<rparr>]\<rparr>
      else s)"

definition live_onstop :: "environment \<Rightarrow> nat \<Rightarrow> live \<Rightarrow> live" where
  "live_onstop env r s =
     (let s1 = (if 0 < length (chunks (recorders s ! r)) then
                  s\<lparr>sent := sent s @ [newBlob (chunks (recorders s ! r)) (mimeOf env)]\<rparr>
                else s)
      in if liveLoopActiveRef s1 then startSegmentRecorder env s1 else s1)"

text \<open>
  \<open>recorder.stop()\<close> on a recorder that is recording: the platform makes it inactive,
  fires \<open>dataavailable\<close> with the data gathered since the start and then fires
  \<open>stop\<close>. The two events are taken as one step.
\<close>

definition recorder_stop :: "environment \<Rightarrow> nat \<Rightarrow> live \<Rightarrow> live" where
  "recorder_stop env r s =
     (let data = \<lparr>btype = mimeOf env, bdata = gathered (recorders s ! r)\<rparr>;
          s1 = s\<lparr>recorders := (recorders s)[r := (recorders s ! r)\<lparr>rec_state := inactive, gathered := []\<rparr>]\<rparr>;
          s2 = live_ondataavailable r data s1
      in live_onstop env r s2)"

definition startLiveSubtitles :: "environment \<Rightarrow> live \<Rightarrow> live" where
  "startLiveSubtitles env s =
     (if liveSubtitlesEnabled s then s
      else if \<not> stream env then
        s\<lparr>liveError := Some ''No audio stream available to start live subtitles.''\<rparr>
      else if mime env = None then
        s\<lparr>liveError := Some ''WebM Opus recording is not supported in this browser.''\<rparr>
      else startSegmentRecorder env (s\<lparr>liveLoopActiveRef := True, liveSubtitlesEnabled := True\<rparr>))"

definition stopLiveSubtitles :: "environment \<Rightarrow> live \<Rightarrow> live" where
  "stopLiveSubtitles env s =
     (let s1 = s\<lparr>liveLoopActiveRef := False\<rparr>;
          s2 = (case liveRecorderRef s1 of
                  None \<Rightarrow> s1
                | Some r \<Rightarrow>
                    let s3 = s1\<lparr>liveRecorderRef := None\<rparr>
                    in if rec_state (recorders s3 ! r) = recording then recorder_stop env r s3
                       else s3)
      in s2\<lparr>liveSubtitlesEnabled := False\<rparr>)"

text \<open>The callback of \<open>window.setTimeout(..., segmentTargetMs)\<close> for recorder \<open>r\<close>.\<close>

definition segmentTimeout :: "environment \<Rightarrow> nat \<Rightarrow> live \<Rightarrow> live" where
  "segmentTimeout env r s =
     (if rec_state (recorders s ! r) = recording then recorder_stop env r s else s)"

text \<open>
  What can happen to the live loop: the two operations of the hook, audio arriving at a
  recorder, and the timer of a recorder firing.
\<close>

datatype event = StartLive | StopLive | Captured nat "byte list" | Timeout nat

fun step :: "environment \<Rightarrow> live \<Rightarrow> event \<Rightarrow> live" where
  "step env s StartLive = startLiveSubtitles env s"
| "step env s StopLive = stopLiveSubtitles env s"
| "step env s (Captured r bytes) =
     (if r < length (recorders s) \<and> rec_state (recorders s ! r) = recording then
        s\<lparr>recorders := (recorders s)[r := (recorders s ! r)\<lparr>gathered := gathered (recorders s ! r) @ bytes\<rparr>]\<rparr>
      else s)"
| "step env s (Timeout r) = (if r < length (recorders s) then segmentTimeout env r s else s)"

definition run :: "environment \<Rightarrow> event list \<Rightarrow> live" where
  "run env events = foldl (step env) liveInitial events"

text \<open>
  For the proofs: the current recorder exists, and a recorder that is still recording
  has received no chunk yet.
\<close>

definition orderly :: "live \<Rightarrow> bool" where
  "orderly s =
     ((case liveRecorderRef s of None \<Rightarrow> True | Some r \<Rightarrow> r < length (recorders s)) \<and>
      list_all (\<lambda>m. rec_state m = inactive \<or> chunks m = []) (recorders s))"

text \<open>
  Concrete inputs: a browser in which everything is available, a live session whose
  first recorder has gathered three bytes, and those bytes as the blob they arrive in.
\<close>

definition browser :: environment where
  "browser = \<lparr>stream = True, audioTrack = True, mime = Some ''audio/webm;codecs=opus'',
              recorderThrows = False\<rparr>"

definition liveRun :: live where
  "liveRun = run browser [StartLive, Captured 0 [1, 2, 3]]"

definition partialSegment :: blob where
  "partialSegment = \<lparr>btype = ''audio/webm;codecs=opus'', bdata = [1, 2, 3]\<rparr>"

section \<open>The session around an upload\<close>

text \<open>
  The handlers call \<open>sendChunkToTranscription\<close> with \<open>void\<close>: they do not wait for
  it. What a call does is confined to three things: the payload it passes to
  \<open>transcribeBlob\<close>, the response it passes to \<open>onTranscription\<close>, which the
  \<open>AudioCapture\<close> component merges into its subtitles, and the message it writes to
  the error field of the state. It reads and writes none of the refs. \<open>effects\<close>
  collects the three; \<open>uploadFailure\<close> is the last message that an upload wrote,
  \<open>liveError\<close> the last that a handler of the live loop wrote, and the error field
  shows whichever is the later. A call is taken to run to its end before the next event
  arrives.
\<close>

record effects =
  uploads :: "blob list"
  subtitles :: "jsstring list"
  uploadFailure :: "string option"

definition noEffects :: effects where
  "noEffects = \<lparr>uploads = [], subtitles = [], uploadFailure = None\<rparr>"

definition settle :: "platform \<Rightarrow> blob \<Rightarrow> effects \<Rightarrow> effects" where
  "settle pf chunk fx =
     (let outcome = sendChunkToTranscription pf chunk in
      \<lparr>uploads = (case posted outcome of
                     None \<Rightarrow> uploads fx
                   | Some payload \<Rightarrow> uploads fx @ [payload]),
       subtitles = (case delivered outcome of
                      None \<Rightarrow> subtitles fx
                    | Some response \<Rightarrow> onTranscription (Some response) (subtitles fx)),
       uploadFailure = (case uploadError outcome of
                          None \<Rightarrow> uploadFailure fx
                        | Some message \<Rightarrow> Some message)\<rparr>)"

text \<open>
  One event of the live loop together with the calls of \<open>sendChunkToTranscription\<close>
  that its handlers make, and a live session from its start.
\<close>

definition liveStep :: "platform \<Rightarrow> environment \<Rightarrow> live \<times> effects \<Rightarrow> event \<Rightarrow> live \<times> effects" where
  "liveStep pf env ss e =
     (let h = step env (fst ss) e;
          calls = drop (length (sent (fst ss))) (sent h)
      in (h, foldl (\<lambda>fx chunk. settle pf chunk fx) (snd ss) calls))"

definition liveSession :: "platform \<Rightarrow> environment \<Rightarrow> event list \<Rightarrow> live \<times> effects" where
  "liveSession pf env events = foldl (liveStep pf env) (liveInitial, noEffects) events"

text \<open>
  One \<open>dataavailable\<close> event of the recording with the call that
  \<open>recorder.ondataavailable\<close> makes when it seals a segment, as
  \<open>new Blob(segmentChunksRef.current, { type: mimeType })\<close>, and a recording from its
  start.
\<close>

definition streamStep ::
  "platform \<Rightarrow> opts \<Rightarrow> string \<Rightarrow> recording \<times> effects \<Rightarrow> blob \<Rightarrow> recording \<times> effects" where
  "streamStep pf os mimeType ss chunk =
     (case ondataavailable os chunk (fst ss) of
        (s, None) \<Rightarrow> (s, snd ss)
      | (s, Some seg) \<Rightarrow> (s, settle pf (newBlob seg mimeType) (snd ss)))"

definition streamSession ::
  "platform \<Rightarrow> opts \<Rightarrow> string \<Rightarrow> blob list \<Rightarrow> recording \<times> effects" where
  "streamSession pf os mimeType cs = foldl (streamStep pf os mimeType) (initial, noEffects) cs"

text \<open>
  Concrete inputs: a live session whose first recorder has gathered three bytes, and a
  recording with a one-second target that has buffered three chunks, both on the platform
  that decodes nothing.
\<close>

definition liveSoFar :: "live \<times> effects" where
  "liveSoFar = liveSession deafPlatform browser [StartLive, Captured 0 [1, 2, 3]]"

definition streamSoFar :: "recording \<times> effects" where
  "streamSoFar = streamSession deafPlatform (streaming (Some 1)) ''audio/webm'' (chunksTo 3)"

section \<open>Properties of the segmenter\<close>

lemma overlapCount_eq: "overlapCount = 4"
  by (simp add: overlapCount_def overlapMs_def timesliceMs_def)

lemma segmentTargetMs_ge: "1000 \<le> segmentTargetMs os"
  by (simp add: segmentTargetMs_def)

lemma chunk_size: "0 < blob_size (testChunk i)"
  by (simp add: testChunk_def blob_size_def)

lemma length_chunksTo: "length (chunksTo n) = n"
  by (simp add: chunksTo_def)

lemma chunksTo_full: "\<forall>c\<in>set (chunksTo n). 0 < blob_size c"
  by (simp add: chunksTo_def chunk_size)

lemma streaming_simps:
  "streamToServer (streaming d)"
  "segmentTargetMs (streaming None) = 5000"
  "segmentTargetMs (streaming (Some 1)) = 1000"
  by (simp_all add: streaming_def segmentTargetMs_def)

lemma ondataavailable_empty: "blob_size c = 0 \<Longrightarrow> ondataavailable os c s = (s, None)"
  by (simp add: ondataavailable_def)

lemma ondataavailable_off:
  "\<not> streamToServer os \<Longrightarrow> 0 < blob_size c \<Longrightarrow>
   ondataavailable os c s = (s\<lparr>chunksRef := chunksRef s @ [c]\<rparr>, None)"
  by (simp add: ondataavailable_def)

lemma ondataavailable_seal:
  "streamToServer os \<Longrightarrow> 0 < blob_size c \<Longrightarrow>
   segmentTargetMs os \<le> real (segmentElapsedMsRef s + timesliceMs) \<Longrightarrow>
   ondataavailable os c s =
     (s\<lparr>chunksRef := chunksRef s @ [c],
        segmentChunksRef := drop (Suc (length (segmentChunksRef s)) - overlapCount) (segmentChunksRef s @ [c]),
        segmentElapsedMsRef := min (Suc (length (segmentChunksRef s))) overlapCount * timesliceMs\<rparr>,
      Some (segmentChunksRef s @ [c]))"
  by (simp add: ondataavailable_def Let_def overlapCount_eq min_def)

lemma ondataavailable_keep:
  "streamToServer os \<Longrightarrow> 0 < blob_size c \<Longrightarrow>
   \<not> segmentTargetMs os \<le> real (segmentElapsedMsRef s + timesliceMs) \<Longrightarrow>
   ondataavailable os c s =
     (s\<lparr>chunksRef := chunksRef s @ [c],
        segmentChunksRef := segmentChunksRef s @ [c],
        segmentElapsedMsRef := segmentElapsedMsRef s + timesliceMs\<rparr>,
      None)"
  by (simp add: ondataavailable_def Let_def)

lemma paced_initial: "paced initial"
  by (simp add: paced_def initial_def)

lemma paced_ondataavailable: "paced s \<Longrightarrow> paced (fst (ondataavailable os c s))"
  by (simp add: ondataavailable_def Let_def paced_def overlapCount_eq min_def)

lemma paced_feed: "paced s \<Longrightarrow> paced (fst (feed os cs s))"
proof (induction cs arbitrary: s)
  case Nil
  then show ?case by simp
next
  case (Cons c cs)
  obtain s1 e where step: "ondataavailable os c s = (s1, e)"
    by (cases "ondataavailable os c s")
  have "paced s1"
    using paced_ondataavailable [OF Cons.prems, of os c] by (simp add: step)
  from Cons.IH [OF this] show ?case
    by (auto simp: step split: prod.splits)
qed

lemma feed_append:
  "feed os (xs @ ys) s =
     (case feed os xs s of (s1, e1) \<Rightarrow> (case feed os ys s1 of (s2, e2) \<Rightarrow> (s2, e1 @ e2)))"
  by (induction xs arbitrary: s) (simp_all split: prod.splits)

lemma feed_no_seal:
  "streamToServer os \<Longrightarrow> \<forall>c\<in>set cs. 0 < blob_size c \<Longrightarrow>
   real (segmentElapsedMsRef s + length cs * timesliceMs) < segmentTargetMs os \<Longrightarrow>
   feed os cs s =
     (s\<lparr>chunksRef := chunksRef s @ cs,
        segmentChunksRef := segmentChunksRef s @ cs,
        segmentElapsedMsRef := segmentElapsedMsRef s + length cs * timesliceMs\<rparr>,
      replicate (length cs) None)"
proof (induction cs arbitrary: s)
  case Nil
  then show ?case by simp
next
  case (Cons c cs)
  have c: "0 < blob_size c" using Cons.prems(2) by simp
  have lt: "\<not> segmentTargetMs os \<le> real (segmentElapsedMsRef s + timesliceMs)"
  proof -
    have "real (segmentElapsedMsRef s + timesliceMs)
            \<le> real (segmentElapsedMsRef s + length (c # cs) * timesliceMs)"
      unfolding of_nat_le_iff by simp
    then show ?thesis using Cons.prems(3) by linarith
  qed
  let ?s1 = "s\<lparr>chunksRef := chunksRef s @ [c],
        segmentChunksRef := segmentChunksRef s @ [c],
        segmentElapsedMsRef := segmentElapsedMsRef s + timesliceMs\<rparr>"
  have step: "ondataavailable os c s = (?s1, None)"
    by (rule ondataavailable_keep [OF Cons.prems(1) c lt])
  have "feed os cs ?s1 = (?s1\<lparr>chunksRef := chunksRef ?s1 @ cs,
        segmentChunksRef := segmentChunksRef ?s1 @ cs,
        segmentElapsedMsRef := segmentElapsedMsRef ?s1 + length cs * timesliceMs\<rparr>,
      replicate (length cs) None)"
    using Cons.prems by (intro Cons.IH) (simp_all add: algebra_simps)
  then show ?case by (simp add: step algebra_simps)
qed


lemma feed_last:
  "feed os (cs @ [c]) s =
     (case feed os cs s of (s1, e1) \<Rightarrow>
        (case ondataavailable os c s1 of (s2, e) \<Rightarrow> (s2, e1 @ [e])))"
  by (simp add: feed_append split: prod.splits)

lemma feed_twenty:
  assumes on: "streamToServer os" and target: "segmentTargetMs os = 5000"
    and len: "length cs = 20" and full: "\<forall>c\<in>set cs. 0 < blob_size c"
  shows "feed os cs initial =
           (\<lparr>chunksRef = cs, segmentChunksRef = drop 16 cs, segmentElapsedMsRef = 1000\<rparr>,
            replicate 19 None @ [Some cs])"
proof -
  from len obtain c bs where cs: "cs = bs @ [c]" and bs: "length bs = 19"
    by (cases cs rule: rev_cases) auto
  have c: "0 < blob_size c" and fullbs: "\<forall>b\<in>set bs. 0 < blob_size b"
    using full by (simp_all add: cs)
  let ?s1 = "\<lparr>chunksRef = bs, segmentChunksRef = bs, segmentElapsedMsRef = 4750\<rparr>"
  have first: "feed os bs initial = (?s1, replicate 19 None)"
    using feed_no_seal [OF on fullbs, of initial]
    by (simp add: target bs initial_def timesliceMs_def)
  have seal: "ondataavailable os c ?s1 =
      (\<lparr>chunksRef = bs @ [c], segmentChunksRef = drop 16 (bs @ [c]), segmentElapsedMsRef = 1000\<rparr>,
       Some (bs @ [c]))"
    using ondataavailable_seal [OF on c, of ?s1]
    by (simp add: target bs timesliceMs_def overlapCount_eq)
  show ?thesis
    by (simp only: cs feed_last first seal prod.case)
qed

lemma feed_seventeen:
  assumes on: "streamToServer os" and target: "segmentTargetMs os = 5000"
    and len: "length cs = 17" and full: "\<forall>c\<in>set cs. 0 < blob_size c"
  shows "feed os cs initial =
           (\<lparr>chunksRef = cs, segmentChunksRef = cs, segmentElapsedMsRef = 4250\<rparr>,
            replicate 17 None)"
  using feed_no_seal [OF on full, of initial]
  by (simp add: target len initial_def timesliceMs_def)

text \<open>
  Claim C1. While streaming is on, the elapsed time of every reachable state is the
  number of buffered chunks times \<open>timesliceMs\<close>. A non-empty testChunk is appended; if
  the accumulated time then reaches the target, the whole buffer is sealed, the last
  \<open>min(overlapCount, length)\<close> chunks are retained and the elapsed time becomes the
  retained count times \<open>timesliceMs\<close>; below the target nothing is sealed. With the
  defaults (250 ms, 5000 ms, 1000 ms) twenty chunks seal exactly once, at the twentieth,
  and leave the last four in the buffer.
\<close>

theorem segmenter_seals_at_target:
  "(streamToServer os \<and> 0 < blob_size c \<and> s = fst (feed os cs initial) \<and>
    buf = segmentChunksRef s @ [c] \<and> keep = min overlapCount (length buf) \<longrightarrow>
      segmentElapsedMsRef s = length (segmentChunksRef s) * timesliceMs \<and>
      (case ondataavailable os c s of
         (s', e) \<Rightarrow>
           if segmentTargetMs os \<le> real (length buf * timesliceMs)
           then e = Some buf \<and> segmentChunksRef s' = drop (length buf - keep) buf \<and>
                length (segmentChunksRef s') = keep \<and>
                segmentElapsedMsRef s' = keep * timesliceMs
           else e = None \<and> segmentChunksRef s' = buf \<and>
                segmentElapsedMsRef s' = length buf * timesliceMs)) \<and>
   (streamToServer os \<and> segmentTargetMs os = 5000 \<and> overlapMs = 1000 \<and> timesliceMs = 250 \<and>
    length cs20 = 20 \<and> (\<forall>c\<in>set cs20. 0 < blob_size c) \<longrightarrow>
      feed os cs20 initial =
        (\<lparr>chunksRef = cs20, segmentChunksRef = drop 16 cs20, segmentElapsedMsRef = 1000\<rparr>,
         replicate 19 None @ [Some cs20]))"
proof (intro conjI impI)
  assume h: "streamToServer os \<and> 0 < blob_size c \<and> s = fst (feed os cs initial) \<and>
    buf = segmentChunksRef s @ [c] \<and> keep = min overlapCount (length buf)"
  then have on: "streamToServer os" and c: "0 < blob_size c"
    and buf: "buf = segmentChunksRef s @ [c]" and keep: "keep = min overlapCount (length buf)"
    by simp_all
  have "paced s" using h paced_feed [OF paced_initial] by simp
  then show pace: "segmentElapsedMsRef s = length (segmentChunksRef s) * timesliceMs"
    by (simp add: paced_def)
  have eq: "real (length buf * timesliceMs) = real (segmentElapsedMsRef s + timesliceMs)"
    by (simp add: buf pace algebra_simps)
  show "case ondataavailable os c s of
         (s', e) \<Rightarrow>
           if segmentTargetMs os \<le> real (length buf * timesliceMs)
           then e = Some buf \<and> segmentChunksRef s' = drop (length buf - keep) buf \<and>
                length (segmentChunksRef s') = keep \<and>
                segmentElapsedMsRef s' = keep * timesliceMs
           else e = None \<and> segmentChunksRef s' = buf \<and>
                segmentElapsedMsRef s' = length buf * timesliceMs"
  proof (cases "segmentTargetMs os \<le> real (segmentElapsedMsRef s + timesliceMs)")
    case True
    then have T: "segmentTargetMs os \<le> real (length buf * timesliceMs)"
      by (simp only: eq)
    have len: "length buf = Suc (length (segmentChunksRef s))"
      by (simp add: buf)
    have k: "min (Suc (length (segmentChunksRef s))) overlapCount = keep"
      by (simp add: keep len min.commute)
    have d: "Suc (length (segmentChunksRef s)) - overlapCount = length buf - keep"
      by (simp add: keep len)
    have kle: "length buf - (length buf - keep) = keep"
      by (simp add: keep)
    show ?thesis
      unfolding ondataavailable_seal [OF on c True] prod.case k d buf [symmetric]
      using T by (simp add: kle)
  next
    case False
    then have T: "\<not> segmentTargetMs os \<le> real (length buf * timesliceMs)"
      unfolding eq .
    have e: "segmentElapsedMsRef s + timesliceMs = length buf * timesliceMs"
      by (simp add: buf pace)
    show ?thesis
      unfolding ondataavailable_keep [OF on c False] prod.case e buf [symmetric]
      using T by simp
  qed
next
  assume "streamToServer os \<and> segmentTargetMs os = 5000 \<and> overlapMs = 1000 \<and> timesliceMs = 250 \<and>
    length cs20 = 20 \<and> (\<forall>c\<in>set cs20. 0 < blob_size c)"
  then show "feed os cs20 initial =
        (\<lparr>chunksRef = cs20, segmentChunksRef = drop 16 cs20, segmentElapsedMsRef = 1000\<rparr>,
         replicate 19 None @ [Some cs20])"
    by (simp add: feed_twenty)
qed


theorem segmenter_seals_at_target_witness:
  "(streamToServer (streaming (Some 1)) \<and> 0 < blob_size (testChunk 4)) \<and>
   snd (ondataavailable (streaming (Some 1)) (testChunk 4)
         (fst (feed (streaming (Some 1)) (chunksTo 3) initial))) = Some (chunksTo 3 @ [testChunk 4]) \<and>
   segmentElapsedMsRef (fst (ondataavailable (streaming (Some 1)) (testChunk 4)
         (fst (feed (streaming (Some 1)) (chunksTo 3) initial)))) = 1000 \<and>
   (streamToServer (streaming None) \<and> segmentTargetMs (streaming None) = 5000 \<and>
    overlapMs = 1000 \<and> timesliceMs = 250 \<and>
    length (chunksTo 20) = 20 \<and> list_all (\<lambda>c. 0 < blob_size c) (chunksTo 20)) \<and>
   feed (streaming None) (chunksTo 20) initial =
     (\<lparr>chunksRef = chunksTo 20, segmentChunksRef = drop 16 (chunksTo 20),
       segmentElapsedMsRef = 1000\<rparr>, replicate 19 None @ [Some (chunksTo 20)])"
proof -
  let ?os = "streaming (Some 1)"
  let ?s = "fst (feed ?os (chunksTo 3) initial)"
  have s: "?s = \<lparr>chunksRef = chunksTo 3, segmentChunksRef = chunksTo 3, segmentElapsedMsRef = 750\<rparr>"
    using feed_no_seal [of ?os "chunksTo 3" initial]
    by (simp add: streaming_simps chunksTo_full length_chunksTo timesliceMs_def initial_def)
  have h1: "streamToServer ?os \<and> 0 < blob_size (testChunk 4) \<and> ?s = fst (feed ?os (chunksTo 3) initial) \<and>
    segmentChunksRef ?s @ [testChunk 4] = segmentChunksRef ?s @ [testChunk 4] \<and>
    min overlapCount (length (segmentChunksRef ?s @ [testChunk 4])) =
      min overlapCount (length (segmentChunksRef ?s @ [testChunk 4]))"
    by (simp add: streaming_simps chunk_size)
  have h2: "streamToServer (streaming None) \<and> segmentTargetMs (streaming None) = 5000 \<and>
    overlapMs = 1000 \<and> timesliceMs = 250 \<and>
    length (chunksTo 20) = 20 \<and> (\<forall>c\<in>set (chunksTo 20). 0 < blob_size c)"
    by (simp add: streaming_simps overlapMs_def timesliceMs_def length_chunksTo chunksTo_full)
  note a = segmenter_seals_at_target [where os = ?os and c = "testChunk 4" and cs = "chunksTo 3"
      and s = ?s and buf = "segmentChunksRef ?s @ [testChunk 4]"
      and keep = "min overlapCount (length (segmentChunksRef ?s @ [testChunk 4]))",
      THEN conjunct1, rule_format, OF h1, THEN conjunct2]
  note b = segmenter_seals_at_target [where os = "streaming None" and ?cs20.0 = "chunksTo 20",
      THEN conjunct2, rule_format, OF h2]
  have "snd (ondataavailable ?os (testChunk 4) ?s) = Some (chunksTo 3 @ [testChunk 4]) \<and>
        segmentElapsedMsRef (fst (ondataavailable ?os (testChunk 4) ?s)) = 1000"
    using a
    by (simp add: case_prod_beta s streaming_simps length_chunksTo timesliceMs_def overlapCount_eq)
  with h1 h2 b show ?thesis by (simp add: list_all_iff)
qed

lemma sealed_simps:
  "sealed [] = []"
  "sealed (None # es) = sealed es"
  "sealed (Some seg # es) = seg # sealed es"
  "sealed (es @ fs) = sealed es @ sealed fs"
  by (simp_all add: sealed_def)

lemma onstop_flush:
  "streamToServer os \<Longrightarrow> segmentChunksRef s \<noteq> [] \<Longrightarrow>
   onstop os s = (s\<lparr>segmentChunksRef := [], segmentElapsedMsRef := 0\<rparr>, Some (segmentChunksRef s))"
  by (simp add: onstop_def)

lemma onstop_idle:
  "segmentChunksRef s = [] \<Longrightarrow> onstop os s = (s, None)"
  by (simp add: onstop_def)

lemma feed_Cons_fst:
  "fst (feed os (c # cs) s) = fst (feed os cs (fst (ondataavailable os c s)))"
  by (simp add: case_prod_beta)

lemma feed_Cons_snd:
  "snd (feed os (c # cs) s) =
     snd (ondataavailable os c s) # snd (feed os cs (fst (ondataavailable os c s)))"
  by (simp add: case_prod_beta)

lemma session_eq:
  "session os cs =
     sealed (snd (feed os cs initial)) @ sealed [snd (onstop os (fst (feed os cs initial)))]"
  by (simp add: session_def case_prod_beta sealed_simps)

lemma regions_feed:
  assumes on: "streamToServer os"
  shows "segmentChunksRef s = p @ b \<Longrightarrow>
         concat (regions (length p)
                   (sealed (snd (feed os cs s) @ [snd (onstop os (fst (feed os cs s)))])))
           = b @ filter (\<lambda>c. 0 < blob_size c) cs"
proof (induction cs arbitrary: s p b)
  case Nil
  show ?case
  proof (cases "segmentChunksRef s = []")
    case True
    then show ?thesis using Nil by (simp add: onstop_idle sealed_simps)
  next
    case False
    then show ?thesis using Nil by (simp add: onstop_flush [OF on] sealed_simps)
  qed
next
  case (Cons c cs)
  show ?case
  proof (cases "0 < blob_size c")
    case False
    then have step: "ondataavailable os c s = (s, None)"
      by (simp add: ondataavailable_empty)
    show ?thesis
      using Cons.IH [OF Cons.prems] False
      by (simp add: feed_Cons_fst feed_Cons_snd step sealed_simps del: feed.simps)
  next
    case c: True
    show ?thesis
    proof (cases "segmentTargetMs os \<le> real (segmentElapsedMsRef s + timesliceMs)")
      case False
      let ?s1 = "s\<lparr>chunksRef := chunksRef s @ [c],
        segmentChunksRef := segmentChunksRef s @ [c],
        segmentElapsedMsRef := segmentElapsedMsRef s + timesliceMs\<rparr>"
      have step: "ondataavailable os c s = (?s1, None)"
        by (rule ondataavailable_keep [OF on c False])
      have "segmentChunksRef ?s1 = p @ (b @ [c])"
        using Cons.prems by simp
      from Cons.IH [OF this] show ?thesis
        using c by (simp add: feed_Cons_fst feed_Cons_snd step sealed_simps del: feed.simps)
    next
      case True
      define seg where "seg = segmentChunksRef s @ [c]"
      define tail where "tail = drop (Suc (length (segmentChunksRef s)) - overlapCount) seg"
      define s1 where "s1 = s\<lparr>chunksRef := chunksRef s @ [c],
        segmentChunksRef := tail,
        segmentElapsedMsRef := min (Suc (length (segmentChunksRef s))) overlapCount * timesliceMs\<rparr>"
      have step: "ondataavailable os c s = (s1, Some seg)"
        unfolding s1_def tail_def seg_def by (rule ondataavailable_seal [OF on c True])
      have "segmentChunksRef s1 = tail @ []" by (simp add: s1_def)
      from Cons.IH [OF this]
      have rest: "concat (regions (length tail)
                   (sealed (snd (feed os cs s1) @ [snd (onstop os (fst (feed os cs s1)))])))
           = filter (\<lambda>c. 0 < blob_size c) cs"
        by simp
      have len: "min (length seg) overlapCount = length tail"
        unfolding tail_def seg_def length_drop length_append by (simp add: overlapCount_eq)
      have here: "drop (length p) seg = b @ [c]"
        using Cons.prems by (simp add: seg_def)
      show ?thesis
        using c rest
        by (simp add: feed_Cons_fst feed_Cons_snd step sealed_simps len here del: feed.simps)
    qed
  qed
qed

text \<open>
  Claim C3. Over a whole recording (chunks, then stop), the non-overlap regions of the
  sealed segments, concatenated in order, are exactly the chunks that arrived with data:
  none is missing and none appears twice. Events with an empty blob are dropped by the
  handler before they reach the buffer.
\<close>

theorem nonoverlap_regions_reconstruct_input:
  "streamToServer os \<Longrightarrow>
   concat (nonOverlapRegions (session os cs)) = filter (\<lambda>c. 0 < blob_size c) cs"
  using regions_feed [of os initial "[]" "[]" cs]
  by (simp add: nonOverlapRegions_def session_eq sealed_simps initial_def)


theorem nonoverlap_regions_reconstruct_input_witness:
  "streamToServer (streaming (Some 1)) \<and>
   concat (nonOverlapRegions (session (streaming (Some 1)) (chunksTo 5))) = chunksTo 5"
proof -
  have on: "streamToServer (streaming (Some 1))" by (simp add: streaming_simps)
  have "filter (\<lambda>c. 0 < blob_size c) (chunksTo 5) = chunksTo 5"
    using chunksTo_full [of 5] by simp
  with nonoverlap_regions_reconstruct_input [OF on, of "chunksTo 5"] on
  show ?thesis by simp
qed

lemma chained_nth:
  "chained segs \<Longrightarrow> Suc i < length segs \<Longrightarrow>
   overlapCount \<le> length (segs ! i) \<and> overlapCount \<le> length (segs ! Suc i) \<and>
   take overlapCount (segs ! Suc i) = drop (length (segs ! i) - overlapCount) (segs ! i)"
proof (induction segs arbitrary: i rule: chained.induct)
  case (1 a b rest)
  then show ?case by (cases i) simp_all
qed simp_all

lemma chained_prefix: "chained (xs @ ys) \<Longrightarrow> chained xs"
proof (induction xs rule: chained.induct)
  case (1 a b rest)
  then show ?case by simp
qed simp_all

lemma chained_feed:
  assumes on: "streamToServer os"
  shows "paced s \<Longrightarrow> length prev \<le> 1 \<Longrightarrow> linked prev (segmentChunksRef s) \<Longrightarrow>
         chained (prev @ sealed (snd (feed os cs s) @ [snd (onstop os (fst (feed os cs s)))]))"
proof (induction cs arbitrary: s prev)
  case Nil
  show ?case
  proof (cases "segmentChunksRef s = []")
    case True
    then show ?thesis using Nil.prems(2)
      by (cases prev) (simp_all add: onstop_idle sealed_simps)
  next
    case False
    then show ?thesis using Nil.prems(2,3)
      by (cases prev) (simp_all add: onstop_flush [OF on] sealed_simps linked_def)
  qed
next
  case (Cons c cs)
  show ?case
  proof (cases "0 < blob_size c")
    case False
    then have step: "ondataavailable os c s = (s, None)"
      by (simp add: ondataavailable_empty)
    show ?thesis
      using Cons.IH [OF Cons.prems]
      by (simp add: feed_Cons_fst feed_Cons_snd step sealed_simps del: feed.simps)
  next
    case c: True
    show ?thesis
    proof (cases "segmentTargetMs os \<le> real (segmentElapsedMsRef s + timesliceMs)")
      case False
      define s1 where "s1 = s\<lparr>chunksRef := chunksRef s @ [c],
        segmentChunksRef := segmentChunksRef s @ [c],
        segmentElapsedMsRef := segmentElapsedMsRef s + timesliceMs\<rparr>"
      have step: "ondataavailable os c s = (s1, None)"
        unfolding s1_def by (rule ondataavailable_keep [OF on c False])
      have p1: "paced s1"
        using Cons.prems(1) by (simp add: s1_def paced_def)
      have l1: "linked prev (segmentChunksRef s1)"
        using Cons.prems(3) by (cases prev) (simp_all add: linked_def s1_def)
      from Cons.IH [OF p1 Cons.prems(2) l1] show ?thesis
        by (simp add: feed_Cons_fst feed_Cons_snd step sealed_simps del: feed.simps)
    next
      case True
      define seg where "seg = segmentChunksRef s @ [c]"
      define tail where "tail = drop (Suc (length (segmentChunksRef s)) - overlapCount) seg"
      define s1 where "s1 = s\<lparr>chunksRef := chunksRef s @ [c],
        segmentChunksRef := tail,
        segmentElapsedMsRef := min (Suc (length (segmentChunksRef s))) overlapCount * timesliceMs\<rparr>"
      have step: "ondataavailable os c s = (s1, Some seg)"
        unfolding s1_def tail_def seg_def by (rule ondataavailable_seal [OF on c True])
      have "1000 \<le> real (segmentElapsedMsRef s + timesliceMs)"
        using True segmentTargetMs_ge [of os] by linarith
      then have "1000 \<le> Suc (length (segmentChunksRef s)) * 250"
        using Cons.prems(1) by (simp add: paced_def timesliceMs_def)
      then have long: "overlapCount \<le> length seg"
        by (simp add: seg_def overlapCount_eq)
      have tl: "tail = drop (length seg - overlapCount) seg"
        by (simp add: tail_def seg_def)
      have ltail: "length tail = overlapCount"
        using long by (simp add: tl)
      have p1: "paced s1"
        using long by (simp add: s1_def paced_def ltail seg_def min_def)
      have l1: "linked [seg] (segmentChunksRef s1)"
        using long by (simp add: linked_def s1_def ltail) (simp add: tl)
      have "length [seg] \<le> 1" by simp
      from Cons.IH [OF p1 this l1]
      have rest: "chained (seg # sealed (snd (feed os cs s1) @ [snd (onstop os (fst (feed os cs s1)))]))"
        by simp
      have "chained (prev @ seg # sealed (snd (feed os cs s1) @ [snd (onstop os (fst (feed os cs s1)))]))"
      proof (cases prev)
        case Nil
        then show ?thesis using rest by simp
      next
        case (Cons p ps)
        then have ps: "ps = []" using Cons.prems(2) by simp
        have "take overlapCount seg = take overlapCount (segmentChunksRef s)"
          using Cons.prems(3) by (simp add: linked_def Cons seg_def)
        then show ?thesis
          using rest long Cons.prems(3) by (simp add: Cons ps linked_def)
      qed
      then show ?thesis
        by (simp add: feed_Cons_fst feed_Cons_snd step sealed_simps del: feed.simps)
    qed
  qed
qed

lemma chained_session:
  assumes on: "streamToServer os"
  shows "chained (session os cs)"
  using chained_feed [OF on paced_initial, of "[]" cs]
  by (simp add: linked_def initial_def session_eq sealed_simps)

text \<open>
  Claim C2. In every list of segments sealed by one recording (with or without the
  segment flushed at stop), each segment after the first starts with the last
  \<open>overlapCount\<close> chunks of its predecessor, in order, where
  \<open>overlapCount = ceil(overlapMs / timesliceMs) = 4\<close>; both segments have at least
  that many chunks.
\<close>

theorem consecutive_segments_overlap:
  "streamToServer os \<Longrightarrow>
   segs = sealed (snd (feed os cs initial)) \<or> segs = session os cs \<Longrightarrow>
   Suc i < length segs \<Longrightarrow>
   overlapCount = 4 \<and>
   overlapCount \<le> length (segs ! i) \<and> overlapCount \<le> length (segs ! Suc i) \<and>
   take overlapCount (segs ! Suc i) = drop (length (segs ! i) - overlapCount) (segs ! i)"
proof -
  assume on: "streamToServer os"
    and segs: "segs = sealed (snd (feed os cs initial)) \<or> segs = session os cs"
    and i: "Suc i < length segs"
  have "chained (session os cs)" by (rule chained_session [OF on])
  moreover from this have "chained (sealed (snd (feed os cs initial)))"
    unfolding session_eq by (rule chained_prefix)
  ultimately have "chained segs" using segs by auto
  from chained_nth [OF this i] show ?thesis by (simp add: overlapCount_eq)
qed

theorem consecutive_segments_overlap_witness:
  "streamToServer (streaming (Some 1)) \<and>
   Suc 0 < length (session (streaming (Some 1)) (chunksTo 5)) \<and>
   overlapCount \<le> length (session (streaming (Some 1)) (chunksTo 5) ! 0) \<and>
   take overlapCount (session (streaming (Some 1)) (chunksTo 5) ! Suc 0) =
     drop (length (session (streaming (Some 1)) (chunksTo 5) ! 0) - overlapCount)
       (session (streaming (Some 1)) (chunksTo 5) ! 0)"
proof -
  let ?os = "streaming (Some 1)"
  have on: "streamToServer ?os" by (simp add: streaming_simps)
  have "length (session ?os (chunksTo 5)) = 3"
    by (simp add: session_eq chunksTo_def upt_rec feed_Cons_fst feed_Cons_snd
        ondataavailable_def chunk_size streaming_simps initial_def timesliceMs_def
        overlapCount_eq onstop_def sealed_simps Let_def feed.simps(1) del: feed.simps(2))
  then have i: "Suc 0 < length (session ?os (chunksTo 5))" by simp
  from consecutive_segments_overlap [OF on disjI2 [OF refl] i] on i
  show ?thesis by simp
qed

text \<open>
  Claim C4. When the recorder stops with chunks in the buffer, \<open>onstop\<close> seals all
  of them as a final segment and empties the buffer. Seventeen chunks of 250 ms with a
  5000 ms target seal nothing while they arrive (the elapsed time stays below the
  target), and the stop then emits one segment holding all seventeen.
\<close>

theorem stop_flushes_partial_segment:
  "(streamToServer os \<and> segmentChunksRef s \<noteq> [] \<longrightarrow>
      onstop os s =
        (s\<lparr>segmentChunksRef := [], segmentElapsedMsRef := 0\<rparr>, Some (segmentChunksRef s))) \<and>
   (streamToServer os \<and> segmentTargetMs os = 5000 \<and> timesliceMs = 250 \<and>
    length cs17 = 17 \<and> (\<forall>c\<in>set cs17. 0 < blob_size c) \<longrightarrow>
      snd (feed os cs17 initial) = replicate 17 None \<and>
      real (segmentElapsedMsRef (fst (feed os cs17 initial))) < segmentTargetMs os \<and>
      snd (onstop os (fst (feed os cs17 initial))) = Some cs17 \<and>
      session os cs17 = [cs17])"
proof (intro conjI impI)
  assume "streamToServer os \<and> segmentChunksRef s \<noteq> []"
  then show "onstop os s =
        (s\<lparr>segmentChunksRef := [], segmentElapsedMsRef := 0\<rparr>, Some (segmentChunksRef s))"
    by (simp add: onstop_flush)
next
  assume h: "streamToServer os \<and> segmentTargetMs os = 5000 \<and> timesliceMs = 250 \<and>
    length cs17 = 17 \<and> (\<forall>c\<in>set cs17. 0 < blob_size c)"
  then have on: "streamToServer os" and len: "length cs17 = 17" by simp_all
  have run: "feed os cs17 initial =
           (\<lparr>chunksRef = cs17, segmentChunksRef = cs17, segmentElapsedMsRef = 4250\<rparr>,
            replicate 17 None)"
    using h by (intro feed_seventeen) simp_all
  have ne: "cs17 \<noteq> []" using len by auto
  show "snd (feed os cs17 initial) = replicate 17 None"
    by (simp add: run)
  show "real (segmentElapsedMsRef (fst (feed os cs17 initial))) < segmentTargetMs os"
    using h by (simp add: run)
  show "snd (onstop os (fst (feed os cs17 initial))) = Some cs17"
    using ne by (simp add: run onstop_flush [OF on])
  show "session os cs17 = [cs17]"
    using ne by (simp add: session_eq run onstop_flush [OF on] sealed_simps sealed_def)
qed

theorem stop_flushes_partial_segment_witness:
  "(streamToServer (streaming None) \<and>
    segmentChunksRef (fst (feed (streaming None) [testChunk 1] initial)) \<noteq> []) \<and>
   snd (onstop (streaming None) (fst (feed (streaming None) [testChunk 1] initial))) = Some [testChunk 1] \<and>
   (streamToServer (streaming None) \<and> segmentTargetMs (streaming None) = 5000 \<and>
    timesliceMs = 250 \<and> length (chunksTo 17) = 17 \<and>
    list_all (\<lambda>c. 0 < blob_size c) (chunksTo 17)) \<and>
   snd (feed (streaming None) (chunksTo 17) initial) = replicate 17 None \<and>
   session (streaming None) (chunksTo 17) = [chunksTo 17]"
proof -
  let ?os = "streaming None"
  let ?s = "fst (feed ?os [testChunk 1] initial)"
  have s: "segmentChunksRef ?s = [testChunk 1]"
    by (simp add: ondataavailable_def chunk_size streaming_simps initial_def timesliceMs_def)
  have h1: "streamToServer ?os \<and> segmentChunksRef ?s \<noteq> []"
    by (simp only: s streaming_simps) simp
  have h2: "streamToServer ?os \<and> segmentTargetMs ?os = 5000 \<and>
    timesliceMs = 250 \<and> length (chunksTo 17) = 17 \<and>
    (\<forall>c\<in>set (chunksTo 17). 0 < blob_size c)"
    by (simp add: streaming_simps timesliceMs_def length_chunksTo chunksTo_full)
  note a = stop_flushes_partial_segment [where os = ?os and s = ?s,
      THEN conjunct1, rule_format, OF h1]
  note b = stop_flushes_partial_segment [where os = ?os and ?cs17.0 = "chunksTo 17",
      THEN conjunct2, rule_format, OF h2]
  have "snd (onstop ?os ?s) = Some [testChunk 1]"
    by (simp only: a snd_conv s)
  with h1 h2 b show ?thesis by (simp add: list_all_iff)
qed

section \<open>Properties of the transcript merge\<close>

lemma unled_dropWhile: "dropWhile P xs = [] \<or> \<not> P (hd (dropWhile P xs))"
  using hd_dropWhile [of P xs] by blast

lemma dropWhile_unled: "xs = [] \<or> \<not> P (hd xs) \<Longrightarrow> dropWhile P xs = xs"
  by (cases xs) auto

lemma collapse_unled:
  "s = [] \<or> \<not> isWhiteSpace (hd s) \<Longrightarrow>
   collapseWhitespace s = [] \<or> \<not> isWhiteSpace (hd (collapseWhitespace s))"
  by (cases s) auto

lemma tidy_collapse: "tidy (collapseWhitespace s)"
proof (induction s rule: collapseWhitespace.induct)
  case 1
  show ?case by simp
next
  case (2 c cs)
  show ?case
  proof (cases "isWhiteSpace c")
    case True
    have "collapseWhitespace (dropWhile isWhiteSpace cs) = [] \<or>
          \<not> isWhiteSpace (hd (collapseWhitespace (dropWhile isWhiteSpace cs)))"
      using unled_dropWhile [of isWhiteSpace cs]
      by (rule collapse_unled [of "dropWhile isWhiteSpace cs"])
    with True 2 show ?thesis by simp
  next
    case False
    with 2 show ?thesis by simp
  qed
qed

lemma collapse_tidy: "tidy s \<Longrightarrow> collapseWhitespace s = s"
proof (induction s)
  case Nil
  show ?case by simp
next
  case (Cons c cs)
  show ?case
  proof (cases "isWhiteSpace c")
    case True
    with Cons.prems have "cs = [] \<or> \<not> isWhiteSpace (hd cs)" and "c = 0x20" by simp_all
    then show ?thesis using True Cons by (simp add: dropWhile_unled)
  next
    case False
    with Cons show ?thesis by simp
  qed
qed

lemma tidy_append: "tidy (xs @ ys) \<Longrightarrow> tidy xs \<and> tidy ys"
proof (induction xs)
  case Nil
  then show ?case by simp
next
  case (Cons c xs)
  then show ?case by (cases xs) (auto split: if_splits)
qed

lemma tidy_dropWhile: "tidy s \<Longrightarrow> tidy (dropWhile P s)"
  using tidy_append [of "takeWhile P s" "dropWhile P s"] by simp

lemma rev_dropWhile_rev_prefix:
  "s = rev (dropWhile P (rev s)) @ rev (takeWhile P (rev s))"
proof -
  have "rev (dropWhile P (rev s)) @ rev (takeWhile P (rev s))
          = rev (takeWhile P (rev s) @ dropWhile P (rev s))"
    by (simp only: rev_append)
  also have "\<dots> = rev (rev s)" by (simp only: takeWhile_dropWhile_id)
  finally show ?thesis by simp
qed

lemma tidy_trim: "tidy s \<Longrightarrow> tidy (trim s)"
proof -
  assume "tidy s"
  then have t: "tidy (dropWhile isWhiteSpace s)" by (rule tidy_dropWhile)
  let ?v = "dropWhile isWhiteSpace s"
  have "?v = trim s @ rev (takeWhile isWhiteSpace (rev ?v))"
    unfolding trim_def by (rule rev_dropWhile_rev_prefix)
  with t tidy_append [of "trim s" "rev (takeWhile isWhiteSpace (rev ?v))"]
  show ?thesis by simp
qed

lemma trimmed_trim: "trimmed (trim s)"
proof (cases "trim s = []")
  case True
  then show ?thesis by (simp add: trimmed_def)
next
  case False
  let ?v = "dropWhile isWhiteSpace s"
  let ?w = "dropWhile isWhiteSpace (rev ?v)"
  have w: "?w \<noteq> []" using False by (simp add: trim_def)
  then have "\<not> isWhiteSpace (hd ?w)" by (rule hd_dropWhile)
  then have l: "\<not> isWhiteSpace (last (trim s))"
    using w by (simp add: trim_def last_rev)
  have pre: "?v = trim s @ rev (takeWhile isWhiteSpace (rev ?v))"
    unfolding trim_def by (rule rev_dropWhile_rev_prefix)
  have "?v \<noteq> []"
  proof
    assume e: "?v = []"
    have "trim s = []" unfolding trim_def e by simp
    with False show False ..
  qed
  then have "\<not> isWhiteSpace (hd ?v)" by (rule hd_dropWhile)
  moreover have "hd ?v = hd (trim s)"
    using False by (subst pre) simp
  ultimately show ?thesis using l False by (simp add: trimmed_def)
qed

lemma trim_trimmed: "trimmed s \<Longrightarrow> trim s = s"
proof (cases "s = []")
  case True
  then show ?thesis by (simp add: trim_def)
next
  case False
  assume "trimmed s"
  with False have h: "\<not> isWhiteSpace (hd s)" and l: "\<not> isWhiteSpace (last s)"
    by (simp_all add: trimmed_def)
  have a: "dropWhile isWhiteSpace s = s" using h by (simp add: dropWhile_unled)
  have "hd (rev s) = last s" using False by (simp add: hd_rev)
  then have b: "dropWhile isWhiteSpace (rev s) = rev s" using l by (simp add: dropWhile_unled)
  show ?thesis by (simp add: trim_def a b)
qed

lemma normalizeText_idem: "normalizeText (normalizeText s) = normalizeText s"
proof -
  have "tidy (normalizeText s)"
    unfolding normalizeText_def by (rule tidy_trim [OF tidy_collapse])
  then have "collapseWhitespace (normalizeText s) = normalizeText s" by (rule collapse_tidy)
  moreover have "trim (normalizeText s) = normalizeText s"
    unfolding normalizeText_def by (rule trim_trimmed [OF trimmed_trim])
  ultimately show ?thesis by (simp add: normalizeText_def)
qed

lemma onTranscription_eq:
  "onTranscription r T =
     (let t = normalizeText (textOf r) in
      if t = [] \<or> (T \<noteq> [] \<and> t = last T) then T
      else drop (length (T @ [t]) - 200) (T @ [t]))"
  by (auto simp: onTranscription_def Let_def)

lemma distinct_adj_drop: "distinct_adj xs \<Longrightarrow> distinct_adj (drop n xs)"
proof -
  assume "distinct_adj xs"
  then have "distinct_adj (take n xs @ drop n xs)" by simp
  then show ?thesis unfolding distinct_adj_append_iff by simp
qed

lemma settled_onTranscription: "settled T \<Longrightarrow> settled (onTranscription r T)"
proof -
  assume T: "settled T"
  define t where "t = normalizeText (textOf r)"
  show ?thesis
  proof (cases "t = [] \<or> (T \<noteq> [] \<and> t = last T)")
    case True
    then show ?thesis using T by (simp add: onTranscription_eq t_def [symmetric])
  next
    case False
    then have "\<not> (normalizeText (textOf r) = [] \<or>
                 (T \<noteq> [] \<and> normalizeText (textOf r) = last T))"
      unfolding t_def .
    then have eq: "onTranscription r T = drop (length (T @ [t]) - 200) (T @ [t])"
      unfolding onTranscription_eq [of r T] Let_def t_def by (rule if_not_P)
    have "distinct_adj (T @ [t])"
      using T False by (auto simp: settled_def distinct_adj_append_iff)
    then have a: "distinct_adj (drop (length (T @ [t]) - 200) (T @ [t]))"
      by (rule distinct_adj_drop)
    have b: "length (drop (length (T @ [t]) - 200) (T @ [t])) \<le> 200"
      by simp
    have "normalizeText t = t" by (simp add: t_def normalizeText_idem)
    then have "\<forall>l\<in>set (T @ [t]). normalizeText l = l"
      using T by (auto simp: settled_def list_all_iff)
    then have c: "list_all (\<lambda>l. normalizeText l = l) (drop (length (T @ [t]) - 200) (T @ [t]))"
      unfolding list_all_iff using set_drop_subset [of "length (T @ [t]) - 200" "T @ [t]"]
      by blast
    show ?thesis unfolding eq settled_def using a b c by simp
  qed
qed

lemma settled_foldl: "settled T \<Longrightarrow> settled (foldl (\<lambda>prev r. onTranscription r prev) T rs)"
  by (induction rs arbitrary: T) (simp_all add: settled_onTranscription)

lemma settled_merges: "settled (merges rs)"
  unfolding merges_def by (rule settled_foldl) (simp add: settled_def)

lemma merges_snoc: "merges (rs @ [r]) = onTranscription r (merges rs)"
  by (simp add: merges_def)

text \<open>
  Claim C9. Merging a response normalizes its text (runs of white space collapsed to one
  space, ends trimmed), leaves the subtitles unchanged when the text is empty or equal
  to the last line, and otherwise appends it and keeps the newest 200 lines. After any
  sequence of merges no two adjacent lines are equal after normalization, and there are
  at most 200 lines.
\<close>

theorem transcript_merge_invariant:
  "merges (rs @ [r]) =
     (let t = normalizeText (textOf r); T = merges rs in
      if t = [] \<or> (T \<noteq> [] \<and> t = last T) then T
      else drop (length (T @ [t]) - 200) (T @ [t])) \<and>
   distinct_adj (map normalizeText (merges rs)) \<and> length (merges rs) \<le> 200"
proof -
  have s: "settled (merges rs)" by (rule settled_merges)
  then have "map normalizeText (merges rs) = merges rs"
    by (intro map_idI) (simp add: settled_def list_all_iff)
  with s show ?thesis
    by (simp add: merges_snoc onTranscription_eq [of r] settled_def Let_def)
qed

lemma utf16_ab:
  "utf16 ''a  b '' = [0x61, 0x20, 0x20, 0x62, 0x20]"
  "utf16 '' a b'' = [0x20, 0x61, 0x20, 0x62]"
  "utf16 ''a b'' = [0x61, 0x20, 0x62]"
  by (simp_all add: utf16_def)

lemma isWhiteSpace_ab:
  "isWhiteSpace 0x20" "\<not> isWhiteSpace 0x61" "\<not> isWhiteSpace 0x62"
  by (simp_all add: isWhiteSpace_def)

theorem transcript_merge_invariant_witness:
  "merges ([said ''a  b ''] @ [said '' a b'']) = [utf16 ''a b''] \<and>
   length (merges [said ''a  b '']) \<le> 200"
  using transcript_merge_invariant [of "[said ''a  b '']" "said '' a b''"]
  by (simp add: merges_def onTranscription_def said_def utf16_ab normalizeText_def trim_def
      isWhiteSpace_ab textOf_def)

section \<open>Properties of the PCM encoder\<close>

lemma unat_byte: "unat (of_nat n :: byte) = n mod 256"
  by (simp add: unat_of_nat)

lemma length_setUint8 [simp]: "length (setUint8 v off x) = length v"
  by (simp add: setUint8_def)

lemma length_setUint16 [simp]: "length (setUint16 v off x) = length v"
  by (simp add: setUint16_def Let_def)

lemma length_setUint32 [simp]: "length (setUint32 v off x) = length v"
  by (simp add: setUint32_def Let_def)

lemma length_setInt16 [simp]: "length (setInt16 v off x) = length v"
  by (simp add: setInt16_def Let_def)

lemma nth_setInt16_other:
  "j \<noteq> off \<Longrightarrow> j \<noteq> off + 1 \<Longrightarrow> setInt16 v off x ! j = v ! j"
  by (simp add: setInt16_def Let_def)

lemma split16: "(u::nat) mod 256 + 256 * (u div 256) = u"
  by simp

lemma split32:
  "(u::nat) mod 256 + 256 * (u div 256 mod 256) + 65536 * (u div 65536 mod 256) +
     16777216 * (u div 16777216) = u"
proof -
  have a: "u div 65536 = u div 256 div 256"
    using div_mult2_eq [of u 256 256] by simp
  have b: "u div 16777216 = u div 256 div 256 div 256"
    using div_mult2_eq [of u 65536 256] by (simp add: a)
  define d1 where "d1 = u div 256"
  define d2 where "d2 = d1 div 256"
  have "u = u mod 256 + 256 * d1" by (simp add: d1_def)
  moreover have "d1 = d1 mod 256 + 256 * d2" by (simp add: d2_def)
  moreover have "d2 = d2 mod 256 + 256 * (d2 div 256)" by simp
  ultimately show ?thesis
    unfolding a b d1_def [symmetric] d2_def [symmetric] by linarith
qed

lemma getUint16_setUint16:
  "off + 1 < length v \<Longrightarrow> getUint16 (setUint16 v off x) off = x mod 65536"
proof -
  assume "off + 1 < length v"
  moreover have "x mod 65536 div 256 < 256"
    by (simp add: less_mult_imp_div_less)
  ultimately show ?thesis
    by (simp add: getUint16_def setUint16_def Let_def unat_byte split16)
qed

lemma getUint32_setUint32:
  "off + 3 < length v \<Longrightarrow> getUint32 (setUint32 v off x) off = x mod 4294967296"
proof -
  assume "off + 3 < length v"
  moreover have "x mod 4294967296 div 16777216 < 256"
    by (simp add: less_mult_imp_div_less)
  ultimately show ?thesis
    by (simp add: getUint32_def setUint32_def Let_def unat_byte split32)
qed

lemma signed16:
  assumes "- 32768 \<le> (k::int)" and "k \<le> 32767"
  shows "(if 32768 \<le> k mod 65536 then k mod 65536 - 65536 else k mod 65536) = k"
proof (cases "0 \<le> k")
  case True
  then have "k mod 65536 = k" using assms by simp
  then show ?thesis using assms by simp
next
  case False
  have "(k + 65536) mod 65536 = k + 65536"
    using False assms by (intro mod_pos_pos_trivial) simp_all
  then have "k mod 65536 = k + 65536" by simp
  then show ?thesis using False assms by simp
qed

lemma getInt16_setInt16:
  assumes off: "off + 1 < length v"
    and lo: "- 32768 \<le> js_truncate x" and hi: "js_truncate x \<le> 32767"
  shows "getInt16 (setInt16 v off x) off = js_truncate x"
proof -
  define k where "k = js_truncate x"
  define u where "u = nat (k mod 65536)"
  have u: "int u = k mod 65536" by (simp add: u_def)
  have "int u < 65536" unfolding u by simp
  then have small: "u div 256 < 256"
    by (simp add: less_mult_imp_div_less)
  have get: "getUint16 (setInt16 v off x) off = u"
    using off small
    by (simp add: getUint16_def setInt16_def Let_def unat_byte k_def [symmetric]
        u_def [symmetric] split16)
  have "(if 32768 \<le> int u then int u - 65536 else int u) = k"
    unfolding u using lo hi unfolding k_def [symmetric] by (rule signed16)
  then show ?thesis by (simp add: getInt16_def get Let_def k_def)
qed

lemma floatTo16BitPCM_pcmUpTo:
  "floatTo16BitPCM output offset input = pcmUpTo output offset input (length input)"
  by (simp add: floatTo16BitPCM_def pcmUpTo_def scale16_def Let_def)

lemma pcmUpTo_0: "pcmUpTo output offset input 0 = output"
  by (simp add: pcmUpTo_def)

lemma pcmUpTo_Suc:
  "pcmUpTo output offset input (Suc n) =
     setInt16 (pcmUpTo output offset input n) (offset + n * 2) (scale16 (input ! n))"
  by (simp add: pcmUpTo_def)

lemma length_pcmUpTo: "length (pcmUpTo output offset input n) = length output"
  by (induction n) (simp_all add: pcmUpTo_0 pcmUpTo_Suc)

lemma pcmUpTo_below: "j < offset \<Longrightarrow> pcmUpTo output offset input n ! j = output ! j"
  by (induction n) (simp_all add: pcmUpTo_0 pcmUpTo_Suc nth_setInt16_other)

lemma scale16_range: "- 32768 \<le> scale16 x \<and> scale16 x \<le> 32767"
proof -
  define c where "c = max (- 1) (min 1 x)"
  have c: "- 1 \<le> c" "c \<le> 1" by (simp_all add: c_def)
  show ?thesis
  proof (cases "c < 0")
    case True
    then have "scale16 x = c * 32768" by (simp add: scale16_def c_def Let_def)
    then show ?thesis using c True by simp
  next
    case False
    then have "scale16 x = c * 32767" by (simp add: scale16_def c_def Let_def)
    then show ?thesis using c False by simp
  qed
qed

lemma js_truncate_range:
  "- 32768 \<le> y \<Longrightarrow> y \<le> 32767 \<Longrightarrow> - 32768 \<le> js_truncate y \<and> js_truncate y \<le> 32767"
  by (simp add: js_truncate_def le_floor_iff floor_le_iff ceiling_le_iff le_ceiling_iff)

lemma pcm_range: "- 32768 \<le> js_truncate (scale16 x) \<and> js_truncate (scale16 x) \<le> 32767"
  using scale16_range [of x] by (intro js_truncate_range) simp_all

lemma setInt16_bytes:
  "off + 1 < length v \<Longrightarrow>
   setInt16 v off y ! off = of_nat (nat (js_truncate y mod 65536) mod 256) \<and>
   setInt16 v off y ! (off + 1) = of_nat (nat (js_truncate y mod 65536) div 256)"
  by (simp add: setInt16_def Let_def)

lemma pcmUpTo_bytes:
  "i < n \<Longrightarrow> offset + 2 * n \<le> length output \<Longrightarrow>
   pcmUpTo output offset input n ! (offset + i * 2) =
     of_nat (nat (js_truncate (scale16 (input ! i)) mod 65536) mod 256) \<and>
   pcmUpTo output offset input n ! (offset + i * 2 + 1) =
     of_nat (nat (js_truncate (scale16 (input ! i)) mod 65536) div 256)"
proof (induction n)
  case 0
  then show ?case by simp
next
  case (Suc n)
  show ?case
  proof (cases "i = n")
    case True
    have "offset + n * 2 + 1 < length (pcmUpTo output offset input n)"
      using Suc.prems by (simp add: length_pcmUpTo)
    from setInt16_bytes [OF this] show ?thesis
      by (simp add: pcmUpTo_Suc True)
  next
    case False
    then have i: "i < n" using Suc.prems by simp
    have "offset + 2 * n \<le> length output" using Suc.prems by simp
    from Suc.IH [OF i this] show ?thesis
      using i by (simp add: pcmUpTo_Suc nth_setInt16_other)
  qed
qed

lemma pcmUpTo_getInt16:
  assumes "i < n" and "offset + 2 * n \<le> length output"
  shows "getInt16 (pcmUpTo output offset input n) (offset + i * 2) =
           js_truncate (scale16 (input ! i))"
proof -
  define k where "k = js_truncate (scale16 (input ! i))"
  define u where "u = nat (k mod 65536)"
  have u: "int u = k mod 65536" by (simp add: u_def)
  have "int u < 65536" unfolding u by simp
  then have small: "u div 256 < 256"
    by (simp add: less_mult_imp_div_less)
  have get: "getUint16 (pcmUpTo output offset input n) (offset + i * 2) = u"
    using pcmUpTo_bytes [OF assms, of input] small
    by (simp add: getUint16_def unat_byte k_def [symmetric] u_def [symmetric] split16)
  have "(if 32768 \<le> int u then int u - 65536 else int u) = k"
    unfolding u using pcm_range [of "input ! i"] unfolding k_def [symmetric]
    by (intro signed16) simp_all
  then show ?thesis by (simp add: getInt16_def get Let_def k_def)
qed

text \<open>
  Claim C8. Each sample is clamped to \<open>[-1, 1]\<close> and then scaled, a negative value by
  32768 and any other by 32767; the result, its fraction dropped, lies within the signed
  16-bit range and is what a little-endian signed read of the two bytes at the sample's
  position returns, low byte first. A sample of 1.0 encodes to 32767, one of -1.0 to
  -32768, and a sample beyond the range, such as 1.5, is clamped first.
\<close>

theorem quantize_clamps_then_scales:
  "i < length input \<Longrightarrow> offset + 2 * length input \<le> length output \<Longrightarrow>
   x = input ! i \<Longrightarrow> clamped = max (- 1) (min 1 x) \<Longrightarrow>
   view = floatTo16BitPCM output offset input \<Longrightarrow> pcm = getInt16 view (offset + i * 2) \<Longrightarrow>
   - 1 \<le> clamped \<and> clamped \<le> 1 \<and>
   pcm = js_truncate (if clamped < 0 then clamped * 32768 else clamped * 32767) \<and>
   - 32768 \<le> pcm \<and> pcm \<le> 32767 \<and>
   view ! (offset + i * 2) = of_nat (nat (pcm mod 65536) mod 256) \<and>
   view ! (offset + i * 2 + 1) = of_nat (nat (pcm mod 65536) div 256) \<and>
   (x = 1 \<longrightarrow> pcm = 32767) \<and> (x = - 1 \<longrightarrow> pcm = - 32768) \<and>
   (x = 3 / 2 \<longrightarrow> clamped = 1 \<and> pcm = 32767) \<and>
   (1 \<le> x \<longrightarrow> pcm = 32767) \<and> (x \<le> - 1 \<longrightarrow> pcm = - 32768)"
proof -
  assume i: "i < length input" and fit: "offset + 2 * length input \<le> length output"
    and x: "x = input ! i" and c: "clamped = max (- 1) (min 1 x)"
    and view: "view = floatTo16BitPCM output offset input"
    and pcm: "pcm = getInt16 view (offset + i * 2)"
  have sc: "scale16 x = (if clamped < 0 then clamped * 32768 else clamped * 32767)"
    unfolding scale16_def c Let_def by simp
  have p: "pcm = js_truncate (scale16 x)"
    unfolding pcm view floatTo16BitPCM_pcmUpTo x by (rule pcmUpTo_getInt16 [OF i fit])
  have bytes: "view ! (offset + i * 2) = of_nat (nat (pcm mod 65536) mod 256) \<and>
      view ! (offset + i * 2 + 1) = of_nat (nat (pcm mod 65536) div 256)"
    unfolding p unfolding view floatTo16BitPCM_pcmUpTo x by (rule pcmUpTo_bytes [OF i fit])
  have range: "- 32768 \<le> pcm \<and> pcm \<le> 32767"
    unfolding p by (rule pcm_range)
  have top: "1 \<le> x \<longrightarrow> pcm = 32767"
    by (simp add: p scale16_def js_truncate_def Let_def min_def max_def)
  have bottom: "x \<le> - 1 \<longrightarrow> pcm = - 32768"
    by (simp add: p scale16_def js_truncate_def Let_def min_def max_def)
  have cl: "- 1 \<le> clamped \<and> clamped \<le> 1" by (simp add: c)
  have main: "pcm = js_truncate (if clamped < 0 then clamped * 32768 else clamped * 32767)"
    unfolding p sc ..
  have e1: "x = 1 \<longrightarrow> pcm = 32767" using top by simp
  have e2: "x = - 1 \<longrightarrow> pcm = - 32768" using bottom by simp
  have e3: "x = 3 / 2 \<longrightarrow> clamped = 1 \<and> pcm = 32767" using top by (simp add: c)
  show ?thesis
    using cl main range bytes e1 e2 e3 top bottom by blast
qed

theorem quantize_clamps_then_scales_witness:
  "getInt16 (floatTo16BitPCM (replicate 6 0) 0 [1, - 1, 3 / 2]) (0 + 0 * 2) = 32767 \<and>
   getInt16 (floatTo16BitPCM (replicate 6 0) 0 [1, - 1, 3 / 2]) (0 + 1 * 2) = - 32768 \<and>
   getInt16 (floatTo16BitPCM (replicate 6 0) 0 [1, - 1, 3 / 2]) (0 + 2 * 2) = 32767 \<and>
   floatTo16BitPCM (replicate 6 0) 0 [1, - 1, 3 / 2] ! (0 + 1 * 2) = 0x00 \<and>
   floatTo16BitPCM (replicate 6 0) 0 [1, - 1, 3 / 2] ! (0 + 1 * 2 + 1) = 0x80"
proof -
  let ?input = "[1, - 1, 3 / 2] :: real list"
  let ?out = "replicate 6 0 :: byte list"
  have fit: "0 + 2 * length ?input \<le> length ?out" by simp
  have a: "(0::nat) < length ?input" and b: "(1::nat) < length ?input"
    and c: "(2::nat) < length ?input" by simp_all
  note A = quantize_clamps_then_scales [OF a fit refl refl refl refl]
  note B = quantize_clamps_then_scales [OF b fit refl refl refl refl]
  note C = quantize_clamps_then_scales [OF c fit refl refl refl refl]
  have a1: "getInt16 (floatTo16BitPCM ?out 0 ?input) (0 + 0 * 2) = 32767"
    using A by simp
  have b1: "getInt16 (floatTo16BitPCM ?out 0 ?input) (0 + 1 * 2) = - 32768"
    using B by simp
  have c1: "getInt16 (floatTo16BitPCM ?out 0 ?input) (0 + 2 * 2) = 32767"
    using C by simp
  have b2: "floatTo16BitPCM ?out 0 ?input ! (0 + 1 * 2) = 0x00 \<and>
            floatTo16BitPCM ?out 0 ?input ! (0 + 1 * 2 + 1) = 0x80"
    using B unfolding b1 by simp
  from a1 b1 c1 b2 show ?thesis by (simp only: simp_thms)
qed

section \<open>Properties of the WAV conversion\<close>

lemma writeString4:
  "writeString v off [a, b, c, d] =
     v[off := of_nat (of_char a mod 256), off + 1 := of_nat (of_char b mod 256),
       off + 2 := of_nat (of_char c mod 256), off + 3 := of_nat (of_char d mod 256)]"
  by (simp add: writeString_def encode_def setUint8_def numeral_3_eq_3)

lemma length_writeString4 [simp]: "length (writeString v off [a, b, c, d]) = length v"
  by (simp add: writeString4)

lemma getUint16_cong: "v ! off = w ! off \<Longrightarrow> v ! (off + 1) = w ! (off + 1) \<Longrightarrow>
  getUint16 v off = getUint16 w off"
  by (simp add: getUint16_def)

lemma getUint32_cong:
  "v ! off = w ! off \<Longrightarrow> v ! (off + 1) = w ! (off + 1) \<Longrightarrow>
   v ! (off + 2) = w ! (off + 2) \<Longrightarrow> v ! (off + 3) = w ! (off + 3) \<Longrightarrow>
   getUint32 v off = getUint32 w off"
  by (simp add: getUint32_def)

lemma nth_setUint16_other:
  "j \<noteq> off \<Longrightarrow> j \<noteq> off + 1 \<Longrightarrow> setUint16 v off x ! j = v ! j"
  by (simp add: setUint16_def Let_def)

lemma nth_setUint32_other:
  "j < off \<or> off + 3 < j \<Longrightarrow> setUint32 v off x ! j = v ! j"
  by (auto simp: setUint32_def Let_def)

lemma nth_writeString4_other:
  "j < off \<or> off + 3 < j \<Longrightarrow> writeString v off [a, b, c, d] ! j = v ! j"
  by (auto simp: writeString4)

lemma encodeWavBuffer_header:
  "encodeWavBuffer b =
     floatTo16BitPCM (header (sampleRate b) (length (getChannelData b 0) * 2)) 44
       (getChannelData b 0)"
  by (simp add: encodeWavBuffer_def header_def Let_def)

lemma length_header: "length (header rate n) = 44 + n"
  by (simp add: header_def Let_def)

lemma header_channels: "getUint16 (header rate n) 22 = 1"
  unfolding header_def Let_def
  by (simp add: nth_setUint16_other nth_setUint32_other nth_writeString4_other
      getUint16_setUint16 cong: getUint16_cong)

lemma header_bits: "getUint16 (header rate n) 34 = 16"
  unfolding header_def Let_def
  by (simp add: nth_setUint16_other nth_setUint32_other nth_writeString4_other
      getUint16_setUint16 cong: getUint16_cong)

lemma header_rate: "getUint32 (header rate n) 24 = rate mod 4294967296"
  unfolding header_def Let_def
  by (simp add: nth_setUint16_other nth_setUint32_other nth_writeString4_other
      getUint32_setUint32 cong: getUint32_cong)

lemma header_payload: "getUint32 (header rate n) 40 = n mod 4294967296"
  unfolding header_def Let_def
  by (simp add: getUint32_setUint32)

lemma encodeWavBuffer_fields:
  "length (encodeWavBuffer b) = 44 + length (getChannelData b 0) * 2 \<and>
   getUint16 (encodeWavBuffer b) 22 = 1 \<and>
   getUint32 (encodeWavBuffer b) 24 = sampleRate b mod 4294967296 \<and>
   getUint16 (encodeWavBuffer b) 34 = 16 \<and>
   getUint32 (encodeWavBuffer b) 40 = (length (getChannelData b 0) * 2) mod 4294967296"
proof -
  let ?h = "header (sampleRate b) (length (getChannelData b 0) * 2)"
  let ?e = "encodeWavBuffer b"
  have e: "?e = pcmUpTo ?h 44 (getChannelData b 0) (length (getChannelData b 0))"
    by (simp add: encodeWavBuffer_header floatTo16BitPCM_pcmUpTo)
  have same: "j < 44 \<Longrightarrow> ?e ! j = ?h ! j" for j
    unfolding e by (rule pcmUpTo_below)
  have "getUint16 ?e 22 = getUint16 ?h 22" by (intro getUint16_cong same) simp_all
  moreover have "getUint16 ?e 34 = getUint16 ?h 34" by (intro getUint16_cong same) simp_all
  moreover have "getUint32 ?e 24 = getUint32 ?h 24" by (intro getUint32_cong same) simp_all
  moreover have "getUint32 ?e 40 = getUint32 ?h 40" by (intro getUint32_cong same) simp_all
  moreover have "length ?e = 44 + length (getChannelData b 0) * 2"
    unfolding e by (simp add: length_pcmUpTo length_header)
  ultimately show ?thesis
    by (simp add: header_channels header_bits header_rate header_payload)
qed

lemma ensureWavBlob_wav:
  "str_includes (btype x) ''wav'' \<Longrightarrow> ensureWavBlob pf x rate = Inr x"
  by (cases "btype x") (simp_all add: ensureWavBlob_def)

lemma ensureWavBlob_converted:
  assumes "\<not> str_includes (btype x) ''wav''" and "ensureWavBlob pf x rate = Inr y"
  shows "\<exists>samples. y = \<lparr>btype = ''audio/wav'',
            bdata = encodeWavBuffer \<lparr>sampleRate = rate, channelData = [samples]\<rparr>\<rparr>"
  using assms
  by (auto simp: ensureWavBlob_def resampleBuffer_def Let_def
      split: option.splits sum.splits if_splits)

text \<open>
  Claim C6, as amended. A blob whose type does not contain \<open>wav\<close> and that converts,
  becomes a blob of type \<open>audio/wav\<close> whose header declares one channel, 16000 Hz and
  16 bits per sample; the field at offset 40 carries the payload length (modulo \<open>2^32\<close>,
  the width of the field). A blob whose type contains \<open>wav\<close> is returned as it is.
\<close>

theorem normalize_header_or_passthrough:
  "(\<not> str_includes (btype x) ''wav'' \<and> ensureWavBlob pf x TARGET_SAMPLE_RATE = Inr y \<longrightarrow>
      btype y = ''audio/wav'' \<and> 44 \<le> length (bdata y) \<and>
      getUint16 (bdata y) 22 = 1 \<and> getUint32 (bdata y) 24 = 16000 \<and>
      getUint16 (bdata y) 34 = 16 \<and>
      getUint32 (bdata y) 40 = (length (bdata y) - 44) mod 4294967296) \<and>
   (str_includes (btype x) ''wav'' \<longrightarrow> ensureWavBlob pf x TARGET_SAMPLE_RATE = Inr x)"
proof (rule conjI; rule impI)
  assume "\<not> str_includes (btype x) ''wav'' \<and> ensureWavBlob pf x TARGET_SAMPLE_RATE = Inr y"
  then obtain samples where y: "y = \<lparr>btype = ''audio/wav'',
      bdata = encodeWavBuffer \<lparr>sampleRate = TARGET_SAMPLE_RATE, channelData = [samples]\<rparr>\<rparr>"
    using ensureWavBlob_converted by blast
  let ?b = "\<lparr>sampleRate = TARGET_SAMPLE_RATE, channelData = [samples]\<rparr>"
  have ch: "getChannelData ?b 0 = samples" by (simp add: getChannelData_def)
  note f = encodeWavBuffer_fields [of ?b, unfolded ch]
  show "btype y = ''audio/wav'' \<and> 44 \<le> length (bdata y) \<and>
      getUint16 (bdata y) 22 = 1 \<and> getUint32 (bdata y) 24 = 16000 \<and>
      getUint16 (bdata y) 34 = 16 \<and>
      getUint32 (bdata y) 40 = (length (bdata y) - 44) mod 4294967296"
    using f by (simp add: y TARGET_SAMPLE_RATE_def)
next
  assume "str_includes (btype x) ''wav''"
  then show "ensureWavBlob pf x TARGET_SAMPLE_RATE = Inr x" by (rule ensureWavBlob_wav)
qed

lemma not_wav_chunk: "\<not> str_includes (btype (testChunk i)) ''wav''"
  by (simp add: testChunk_def)

lemma wav_stereoWav: "str_includes (btype stereoWav) ''wav''"
  by (simp add: stereoWav_def)

lemma toy_converts: "ensureWavBlob toyPlatform (testChunk 1) TARGET_SAMPLE_RATE = Inr toyWav"
  by (simp add: ensureWavBlob_def not_wav_chunk resampleBuffer_def toyPlatform_def
      buffer_length_def TARGET_SAMPLE_RATE_def mixToMono_def
      numberOfChannels_def getChannelData_def toyWav_def testChunk_def upt_rec Let_def)

theorem normalize_header_or_passthrough_witness:
  "ensureWavBlob toyPlatform (testChunk 1) TARGET_SAMPLE_RATE = Inr toyWav \<and>
   getUint16 (bdata toyWav) 22 = 1 \<and> getUint32 (bdata toyWav) 24 = 16000 \<and>
   getUint16 (bdata toyWav) 34 = 16 \<and> getUint32 (bdata toyWav) 40 = 8 \<and>
   length (bdata toyWav) = 52 \<and>
   ensureWavBlob toyPlatform stereoWav TARGET_SAMPLE_RATE = Inr stereoWav"
proof -
  have h: "\<not> str_includes (btype (testChunk 1)) ''wav'' \<and>
           ensureWavBlob toyPlatform (testChunk 1) TARGET_SAMPLE_RATE = Inr toyWav"
    by (intro conjI not_wav_chunk toy_converts)
  note a = normalize_header_or_passthrough [where x = "testChunk 1" and pf = toyPlatform
      and y = toyWav, THEN conjunct1, rule_format, OF h]
  note b = normalize_header_or_passthrough [where x = stereoWav and pf = toyPlatform,
      THEN conjunct2, rule_format, OF wav_stereoWav]
  have len: "length (bdata toyWav) = 52"
    using encodeWavBuffer_fields [of "\<lparr>sampleRate = 16000, channelData = [[1 / 2, 1 / 2, 0, 0]]\<rparr>"]
    by (simp add: toyWav_def getChannelData_def)
  from a b len toy_converts show ?thesis by (simp del: One_nat_def)
qed

text \<open>
  The claim C6 as stated fails on the pass-through: a blob reporting \<open>audio/wav\<close>
  whose header declares two channels at 44100 Hz comes back unchanged.
\<close>

theorem passthrough_keeps_foreign_header:
  "ensureWavBlob deafPlatform stereoWav TARGET_SAMPLE_RATE = Inr stereoWav \<and>
   getUint16 (bdata stereoWav) 22 = 2 \<and> getUint32 (bdata stereoWav) 24 = 44100"
  by (simp add: ensureWavBlob_wav wav_stereoWav)
     (simp add: stereoWav_def getUint16_def getUint32_def)

text \<open>
  Claim C10. A blob whose type contains \<open>wav\<close> is a fixed point of the conversion, so
  converting the result again changes nothing. The same holds for every result of a
  successful conversion, since it has type \<open>audio/wav\<close>.
\<close>

theorem normalize_idempotent:
  "(str_includes (btype x) ''wav'' \<longrightarrow>
      ensureWavBlob pf x rate = Inr x \<and>
      (case ensureWavBlob pf x rate of Inl e \<Rightarrow> Inl e | Inr y \<Rightarrow> ensureWavBlob pf y rate)
        = ensureWavBlob pf x rate) \<and>
   (ensureWavBlob pf x rate = Inr y \<longrightarrow> ensureWavBlob pf y rate = Inr y)"
proof (rule conjI; rule impI)
  assume "str_includes (btype x) ''wav''"
  then have "ensureWavBlob pf x rate = Inr x" by (rule ensureWavBlob_wav)
  then show "ensureWavBlob pf x rate = Inr x \<and>
      (case ensureWavBlob pf x rate of Inl e \<Rightarrow> Inl e | Inr y \<Rightarrow> ensureWavBlob pf y rate)
        = ensureWavBlob pf x rate"
    by simp
next
  assume y: "ensureWavBlob pf x rate = Inr y"
  show "ensureWavBlob pf y rate = Inr y"
  proof (cases "str_includes (btype x) ''wav''")
    case True
    then have "ensureWavBlob pf x rate = Inr x" by (rule ensureWavBlob_wav)
    with y have "y = x" by simp
    with True show ?thesis by (simp add: ensureWavBlob_wav)
  next
    case False
    from ensureWavBlob_converted [OF False y] have "btype y = ''audio/wav''" by auto
    then have "str_includes (btype y) ''wav''" by simp
    then show ?thesis by (rule ensureWavBlob_wav)
  qed
qed

theorem normalize_idempotent_witness:
  "str_includes (btype stereoWav) ''wav'' \<and>
   ensureWavBlob deafPlatform stereoWav TARGET_SAMPLE_RATE = Inr stereoWav \<and>
   ensureWavBlob toyPlatform (testChunk 2) TARGET_SAMPLE_RATE = Inr toyWav \<and>
   ensureWavBlob toyPlatform toyWav TARGET_SAMPLE_RATE = Inr toyWav"
proof -
  have c: "ensureWavBlob toyPlatform (testChunk 2) TARGET_SAMPLE_RATE = Inr toyWav"
    by (simp add: ensureWavBlob_def not_wav_chunk resampleBuffer_def toyPlatform_def
      buffer_length_def TARGET_SAMPLE_RATE_def mixToMono_def
      numberOfChannels_def getChannelData_def toyWav_def testChunk_def upt_rec Let_def)
  note a = normalize_idempotent [where x = stereoWav and pf = deafPlatform
      and rate = TARGET_SAMPLE_RATE, THEN conjunct1, rule_format, OF wav_stereoWav, THEN conjunct1]
  note b = normalize_idempotent [where x = "testChunk 2" and pf = toyPlatform and y = toyWav
      and rate = TARGET_SAMPLE_RATE, THEN conjunct2, rule_format, OF c]
  from a b c wav_stereoWav show ?thesis by (intro conjI)
qed

section \<open>Properties of the upload step\<close>

lemma send_fallback:
  assumes "0 < blob_size chunk" and "\<not> str_includes (btype chunk) ''wav''"
    and "ensureWavBlob pf chunk TARGET_SAMPLE_RATE = Inl e"
  shows "sendChunkToTranscription pf chunk =
     (case transcribeBlob pf chunk of
        Inr response \<Rightarrow> \<lparr>posted = Some chunk, delivered = Some response, uploadError = None\<rparr>
      | Inl message \<Rightarrow> \<lparr>posted = Some chunk, delivered = None,
                         uploadError = Some (''Upload failed: '' @ message)\<rparr>)"
  using assms by (simp add: sendChunkToTranscription_def)

lemma deaf_fails: "ensureWavBlob deafPlatform (testChunk i) TARGET_SAMPLE_RATE = Inl DecodeError"
  by (simp add: ensureWavBlob_def not_wav_chunk deafPlatform_def)

lemma deaf_transcribes:
  "transcribeBlob deafPlatform payload = Inr \<lparr>resp_text = Some (utf16 ''ok'')\<rparr>"
  by (simp add: deafPlatform_def)

section \<open>Properties of the live loop\<close>

lemma orderly_initial: "orderly liveInitial"
  by (simp add: orderly_def liveInitial_def)

lemma orderly_startSegmentRecorder: "orderly s \<Longrightarrow> orderly (startSegmentRecorder env s)"
  by (auto simp: orderly_def startSegmentRecorder_def split: option.splits)

lemma list_all_update:
  "list_all P xs \<Longrightarrow> P x \<Longrightarrow> list_all P (xs[i := x])"
  by (auto simp: list_all_iff dest: set_update_subset_insert [THEN subsetD])

lemma orderly_recorder_stop:
  assumes "orderly s"
  shows "orderly (recorder_stop env r s)"
proof -
  define data where "data = \<lparr>btype = mimeOf env, bdata = gathered (recorders s ! r)\<rparr>"
  define s1 where "s1 = s\<lparr>recorders := (recorders s)[r := (recorders s ! r)\<lparr>rec_state := inactive, gathered := []\<rparr>]\<rparr>"
  define s2 where "s2 = live_ondataavailable r data s1"
  define s3 where "s3 = (if 0 < length (chunks (recorders s2 ! r)) then
                  s2\<lparr>sent := sent s2 @ [newBlob (chunks (recorders s2 ! r)) (mimeOf env)]\<rparr>
                else s2)"
  have o1: "orderly s1"
    using assms by (auto simp: orderly_def s1_def intro: list_all_update split: option.splits)
  have "r < length (recorders s1) \<Longrightarrow> rec_state (recorders s1 ! r) = inactive"
    by (simp add: s1_def)
  then have o2: "orderly s2"
    using o1 unfolding s2_def live_ondataavailable_def orderly_def
    by (cases "r < length (recorders s1)")
       (auto simp: list_update_beyond not_less intro: list_all_update split: option.splits)
  have o3: "orderly s3"
    using o2 by (simp add: s3_def orderly_def split: option.splits)
  have "recorder_stop env r s = (if liveLoopActiveRef s3 then startSegmentRecorder env s3 else s3)"
    by (simp add: recorder_stop_def live_onstop_def Let_def s3_def s2_def s1_def data_def)
  then show ?thesis using o3 by (simp add: orderly_startSegmentRecorder)
qed

lemma orderly_step: "orderly s \<Longrightarrow> orderly (step env s e)"
proof (cases e)
  case StartLive
  assume "orderly s"
  then have "orderly (s\<lparr>liveLoopActiveRef := True, liveSubtitlesEnabled := True\<rparr>)"
    by (simp add: orderly_def split: option.splits)
  then have "orderly (startSegmentRecorder env (s\<lparr>liveLoopActiveRef := True, liveSubtitlesEnabled := True\<rparr>))"
    by (rule orderly_startSegmentRecorder)
  moreover have "orderly (s\<lparr>liveError := x\<rparr>)" for x
    using \<open>orderly s\<close> by (simp add: orderly_def split: option.splits)
  ultimately show ?thesis
    using \<open>orderly s\<close> by (simp add: StartLive startLiveSubtitles_def)
next
  case StopLive
  assume o: "orderly s"
  then have a: "orderly (s\<lparr>liveLoopActiveRef := False, liveRecorderRef := None\<rparr>)"
    by (simp add: orderly_def)
  have b: "orderly t \<Longrightarrow> orderly (t\<lparr>liveSubtitlesEnabled := False\<rparr>)" for t
    by (simp add: orderly_def split: option.splits)
  have c: "orderly (s\<lparr>liveLoopActiveRef := False\<rparr>)"
    using o by (simp add: orderly_def split: option.splits)
  show ?thesis
    using a c orderly_recorder_stop [OF a]
    by (auto simp: StopLive stopLiveSubtitles_def Let_def intro!: b split: option.splits)
next
  case (Captured r bytes)
  assume "orderly s"
  then show ?thesis
    by (auto simp: Captured orderly_def list_all_length nth_list_update split: option.splits)
next
  case (Timeout r)
  assume "orderly s"
  then show ?thesis
    by (simp add: Timeout segmentTimeout_def orderly_recorder_stop)
qed

lemma orderly_foldl: "orderly s \<Longrightarrow> orderly (foldl (step env) s es)"
  by (induction es arbitrary: s) (simp_all add: orderly_step)

lemma orderly_run: "orderly (run env events)"
  unfolding run_def by (rule orderly_foldl [OF orderly_initial])

lemma posted_nonempty:
  "0 < blob_size c \<Longrightarrow> posted (sendChunkToTranscription pf c) \<noteq> None"
  by (simp add: sendChunkToTranscription_def Let_def split: sum.splits)

text \<open>
  Claim C5, as amended. In every live session, \<open>stopLiveSubtitles\<close> stops the recorder
  in flight, ends the loop (no recorder is started afterwards) and clears the reference
  to the recorder; it does not discard the partial segment: the data that the recorder
  gathered is handed to \<open>sendChunkToTranscription\<close>, which uploads it, unless the
  recorder gathered nothing.
\<close>

theorem stopLive_uploads_partial_segment:
  "s = run env events \<Longrightarrow> liveRecorderRef s = Some r \<Longrightarrow>
   rec_state (recorders s ! r) = recording \<Longrightarrow>
   data = \<lparr>btype = mimeOf env, bdata = gathered (recorders s ! r)\<rparr> \<Longrightarrow>
   s' = stopLiveSubtitles env s \<Longrightarrow>
   rec_state (recorders s' ! r) = inactive \<and>
   sent s' = sent s @ (if 0 < blob_size data then [data] else []) \<and>
   (0 < blob_size data \<longrightarrow> posted (sendChunkToTranscription pf data) \<noteq> None) \<and>
   \<not> liveLoopActiveRef s' \<and> liveRecorderRef s' = None \<and> \<not> liveSubtitlesEnabled s' \<and>
   length (recorders s') = length (recorders s)"
proof -
  assume s: "s = run env events" and ref: "liveRecorderRef s = Some r"
    and rec: "rec_state (recorders s ! r) = recording"
    and data: "data = \<lparr>btype = mimeOf env, bdata = gathered (recorders s ! r)\<rparr>"
    and s': "s' = stopLiveSubtitles env s"
  have o: "orderly s" unfolding s by (rule orderly_run)
  then have r: "r < length (recorders s)"
    using ref by (simp add: orderly_def)
  then have "rec_state (recorders s ! r) = inactive \<or> chunks (recorders s ! r) = []"
    using o by (simp add: orderly_def list_all_length)
  then have empty: "chunks (recorders s ! r) = []"
    using rec by simp
  have blob: "newBlob [data] (mimeOf env) = data"
    by (simp add: newBlob_def data)
  have up: "0 < blob_size data \<longrightarrow> posted (sendChunkToTranscription pf data) \<noteq> None"
    by (simp add: posted_nonempty)
  show ?thesis
  proof (cases "0 < blob_size data")
    case True
    then show ?thesis
      using r rec empty blob up
      by (simp add: s' stopLiveSubtitles_def ref recorder_stop_def live_ondataavailable_def
          live_onstop_def Let_def data [symmetric])
  next
    case False
    then show ?thesis
      using r rec empty
      by (simp add: s' stopLiveSubtitles_def ref recorder_stop_def live_ondataavailable_def
          live_onstop_def Let_def data [symmetric])
  qed
qed

lemma liveRun_eq:
  "liveRun =
     \<lparr>liveLoopActiveRef = True, liveRecorderRef = Some 0, liveSubtitlesEnabled = True,
      recorders = [\<lparr>rec_state = recording, gathered = [1, 2, 3], chunks = []\<rparr>],
      sent = [], liveError = None\<rparr>"
  by (simp add: liveRun_def run_def liveInitial_def startLiveSubtitles_def
      startSegmentRecorder_def browser_def)

theorem stopLive_uploads_partial_segment_witness:
  "liveRecorderRef liveRun = Some 0 \<and> rec_state (recorders liveRun ! 0) = recording \<and>
   gathered (recorders liveRun ! 0) = [1, 2, 3] \<and>
   sent (stopLiveSubtitles browser liveRun) = [partialSegment] \<and>
   liveRecorderRef (stopLiveSubtitles browser liveRun) = None"
proof -
  have a: "liveRecorderRef liveRun = Some 0" by (simp add: liveRun_eq)
  have b: "rec_state (recorders liveRun ! 0) = recording" by (simp add: liveRun_eq)
  have c: "partialSegment = \<lparr>btype = mimeOf browser, bdata = gathered (recorders liveRun ! 0)\<rparr>"
    by (simp add: liveRun_eq partialSegment_def mimeOf_def browser_def)
  have d: "0 < blob_size partialSegment" by (simp add: partialSegment_def blob_size_def)
  have e: "sent liveRun = []" by (simp add: liveRun_eq)
  note t = stopLive_uploads_partial_segment [where pf = deafPlatform, OF liveRun_def a b c refl]
  have "gathered (recorders liveRun ! 0) = [1, 2, 3]" by (simp add: liveRun_eq)
  with t a b d e show ?thesis by simp
qed

text \<open>
  The claim C5 as stated fails: stopping a live session whose recorder has gathered
  three bytes uploads them.
\<close>

theorem stopLive_does_not_discard:
  "sent liveRun = [] \<and>
   sent (step browser liveRun StopLive) = [partialSegment] \<and>
   posted (sendChunkToTranscription deafPlatform partialSegment) = Some partialSegment"
proof -
  have "0 < blob_size partialSegment" by (simp add: partialSegment_def blob_size_def)
  moreover have "\<not> str_includes (btype partialSegment) ''wav''"
    by (simp add: partialSegment_def)
  moreover have "ensureWavBlob deafPlatform partialSegment TARGET_SAMPLE_RATE = Inl DecodeError"
    by (simp add: ensureWavBlob_def partialSegment_def deafPlatform_def)
  ultimately have "posted (sendChunkToTranscription deafPlatform partialSegment) = Some partialSegment"
    by (simp add: send_fallback deaf_transcribes)
  moreover have "sent (step browser liveRun StopLive) = [partialSegment]"
    by (simp add: liveRun_eq stopLiveSubtitles_def recorder_stop_def live_ondataavailable_def
        live_onstop_def Let_def mimeOf_def browser_def newBlob_def blob_size_def
        partialSegment_def)
  ultimately show ?thesis by (simp add: liveRun_eq)
qed

section \<open>Properties of the session around an upload\<close>

lemma fst_liveStep: "fst (liveStep pf env ss e) = step env (fst ss) e"
  by (simp add: liveStep_def Let_def)

lemma fst_foldl_liveStep:
  "fst (foldl (liveStep pf env) ss es) = foldl (step env) (fst ss) es"
  by (induction es arbitrary: ss) (simp_all add: fst_liveStep)

lemma fst_liveSession: "fst (liveSession pf env events) = run env events"
  by (simp add: liveSession_def run_def fst_foldl_liveStep)

lemma fst_streamStep: "fst (streamStep pf os mt ss c) = fst (ondataavailable os c (fst ss))"
  by (simp add: streamStep_def split: prod.splits option.splits)

lemma fst_feed_snoc: "fst (feed os (cs @ [c]) s) = fst (ondataavailable os c (fst (feed os cs s)))"
  by (simp add: feed_last case_prod_beta)

lemma fst_foldl_streamStep:
  "fst (foldl (streamStep pf os mt) ss cs) = fst (feed os cs (fst ss))"
proof (induction cs rule: rev_induct)
  case Nil
  show ?case by simp
next
  case (snoc c cs)
  show ?case
    by (simp only: foldl_append foldl.simps fst_streamStep snoc fst_feed_snoc)
qed

lemma fst_streamSession: "fst (streamSession pf os mt cs) = fst (feed os cs initial)"
  by (simp add: streamSession_def fst_foldl_streamStep)

lemma settle_fallback:
  assumes "0 < blob_size chunk" and "ensureWavBlob pf chunk TARGET_SAMPLE_RATE = Inl e"
  shows "settle pf chunk fx =
     (case transcribeBlob pf chunk of
        Inr response \<Rightarrow>
          \<lparr>uploads = uploads fx @ [chunk],
           subtitles = onTranscription (Some response) (subtitles fx),
           uploadFailure = uploadFailure fx\<rparr>
      | Inl message \<Rightarrow>
          \<lparr>uploads = uploads fx @ [chunk], subtitles = subtitles fx,
           uploadFailure = Some (''Upload failed: '' @ message)\<rparr>)"
proof -
  have "\<not> str_includes (btype chunk) ''wav''"
    using assms(2) ensureWavBlob_wav [of chunk pf TARGET_SAMPLE_RATE] by auto
  from send_fallback [OF assms(1) this assms(2)] show ?thesis
    by (simp add: settle_def Let_def split: sum.splits)
qed


lemma timeout_respawns:
  assumes o: "orderly h" and act: "liveLoopActiveRef h" and ref: "liveRecorderRef h = Some r"
    and rec: "rec_state (recorders h ! r) = recording"
    and seg: "segment = \<lparr>btype = mimeOf env, bdata = gathered (recorders h ! r)\<rparr>"
    and size: "0 < blob_size segment"
    and track: "audioTrack env" and ctor: "\<not> recorderThrows env"
  shows "step env h (Timeout r) =
     h\<lparr>liveRecorderRef := Some (length (recorders h)),
       recorders := (recorders h)[r := \<lparr>rec_state = inactive, gathered = [], chunks = [segment]\<rparr>]
                      @ [\<lparr>rec_state = recording, gathered = [], chunks = []\<rparr>],
       sent := sent h @ [segment]\<rparr>"
proof -
  have r: "r < length (recorders h)"
    using o ref by (simp add: orderly_def)
  then have "rec_state (recorders h ! r) = inactive \<or> chunks (recorders h ! r) = []"
    using o by (simp add: orderly_def list_all_length)
  then have empty: "chunks (recorders h ! r) = []"
    using rec by simp
  have blob: "newBlob [segment] (mimeOf env) = segment"
    by (simp add: newBlob_def seg)
  have m: "(recorders h ! r)\<lparr>rec_state := inactive, gathered := [], chunks := [segment]\<rparr>
            = \<lparr>rec_state = inactive, gathered = [], chunks = [segment]\<rparr>"
    by simp
  show ?thesis
    using r rec empty blob size act track ctor
    by (simp add: segmentTimeout_def recorder_stop_def live_ondataavailable_def
        live_onstop_def startSegmentRecorder_def Let_def seg [symmetric] m)
qed

text \<open>
  Claim C7, as amended. When the conversion of a non-empty segment fails, the segment is
  not dropped: it is uploaded as it is, and the failed conversion writes no error (only a
  failed upload does, and a successful one is delivered to the subtitles). The session
  continues and the failure does not halt the pipeline. In the live loop, the recorder
  whose segment failed to convert is followed by a new recorder that is recording, the
  loop stays active, and the refs are those of the loop run on its own. In tail-retention
  mode the refs after the sealing chunk are those that the segmenter alone produces.
\<close>

theorem failed_conversion_uploads_raw_and_session_continues:
  "(0 < blob_size chunk \<and> ensureWavBlob pf chunk TARGET_SAMPLE_RATE = Inl e \<and>
    outcome = sendChunkToTranscription pf chunk \<longrightarrow>
      posted outcome = Some chunk \<and>
      (case transcribeBlob pf chunk of
         Inr response \<Rightarrow> delivered outcome = Some response \<and> uploadError outcome = None
       | Inl message \<Rightarrow> delivered outcome = None \<and>
           uploadError outcome = Some (''Upload failed: '' @ message))) \<and>
   (ss = liveSession pf env events \<and> liveLoopActiveRef (fst ss) \<and>
    liveRecorderRef (fst ss) = Some r \<and> rec_state (recorders (fst ss) ! r) = recording \<and>
    segment = \<lparr>btype = mimeOf env, bdata = gathered (recorders (fst ss) ! r)\<rparr> \<and>
    0 < blob_size segment \<and> ensureWavBlob pf segment TARGET_SAMPLE_RATE = Inl e \<and>
    audioTrack env \<and> \<not> recorderThrows env \<and> ss' = liveStep pf env ss (Timeout r) \<longrightarrow>
      fst ss = run env events \<and> fst ss' = run env (events @ [Timeout r]) \<and>
      uploads (snd ss') = uploads (snd ss) @ [segment] \<and>
      liveLoopActiveRef (fst ss') \<and>
      liveSubtitlesEnabled (fst ss') = liveSubtitlesEnabled (fst ss) \<and>
      liveError (fst ss') = liveError (fst ss) \<and>
      liveRecorderRef (fst ss') = Some (length (recorders (fst ss))) \<and>
      rec_state (recorders (fst ss') ! length (recorders (fst ss))) = recording \<and>
      (case transcribeBlob pf segment of
         Inr response \<Rightarrow>
           subtitles (snd ss') = onTranscription (Some response) (subtitles (snd ss)) \<and>
           uploadFailure (snd ss') = uploadFailure (snd ss)
       | Inl message \<Rightarrow>
           subtitles (snd ss') = subtitles (snd ss) \<and>
           uploadFailure (snd ss') = Some (''Upload failed: '' @ message))) \<and>
   (st = streamSession pf os mimeType cs \<and>
    ondataavailable os c (fst st) = (s, Some seg) \<and>
    ensureWavBlob pf (newBlob seg mimeType) TARGET_SAMPLE_RATE = Inl e \<and>
    st' = streamStep pf os mimeType st c \<longrightarrow>
      fst st = fst (feed os cs initial) \<and> fst st' = fst (feed os (cs @ [c]) initial) \<and>
      fst st' = s \<and>
      uploads (snd st') = uploads (snd st) @ [newBlob seg mimeType] \<and>
      (case transcribeBlob pf (newBlob seg mimeType) of
         Inr response \<Rightarrow>
           subtitles (snd st') = onTranscription (Some response) (subtitles (snd st)) \<and>
           uploadFailure (snd st') = uploadFailure (snd st)
       | Inl message \<Rightarrow>
           subtitles (snd st') = subtitles (snd st) \<and>
           uploadFailure (snd st') = Some (''Upload failed: '' @ message)))"
proof (intro conjI; rule impI)
  assume h: "0 < blob_size chunk \<and> ensureWavBlob pf chunk TARGET_SAMPLE_RATE = Inl e \<and>
    outcome = sendChunkToTranscription pf chunk"
  then have "\<not> str_includes (btype chunk) ''wav''"
    using ensureWavBlob_wav [of chunk pf TARGET_SAMPLE_RATE] by auto
  with h show "posted outcome = Some chunk \<and>
      (case transcribeBlob pf chunk of
         Inr response \<Rightarrow> delivered outcome = Some response \<and> uploadError outcome = None
       | Inl message \<Rightarrow> delivered outcome = None \<and>
           uploadError outcome = Some (''Upload failed: '' @ message))"
    by (simp add: send_fallback split: sum.splits)
next
  assume h: "ss = liveSession pf env events \<and> liveLoopActiveRef (fst ss) \<and>
    liveRecorderRef (fst ss) = Some r \<and> rec_state (recorders (fst ss) ! r) = recording \<and>
    segment = \<lparr>btype = mimeOf env, bdata = gathered (recorders (fst ss) ! r)\<rparr> \<and>
    0 < blob_size segment \<and> ensureWavBlob pf segment TARGET_SAMPLE_RATE = Inl e \<and>
    audioTrack env \<and> \<not> recorderThrows env \<and> ss' = liveStep pf env ss (Timeout r)"
  then have ss: "ss = liveSession pf env events" and ss': "ss' = liveStep pf env ss (Timeout r)"
    and size: "0 < blob_size segment"
    and fails: "ensureWavBlob pf segment TARGET_SAMPLE_RATE = Inl e"
    and act: "liveLoopActiveRef (fst ss)" and ref: "liveRecorderRef (fst ss) = Some r"
    and rec: "rec_state (recorders (fst ss) ! r) = recording"
    and seg: "segment = \<lparr>btype = mimeOf env, bdata = gathered (recorders (fst ss) ! r)\<rparr>"
    and track: "audioTrack env" and ctor: "\<not> recorderThrows env"
    by blast+
  have run: "fst ss = run env events" by (simp add: ss fst_liveSession)
  then have o: "orderly (fst ss)" by (simp add: orderly_run)
  have stepped: "step env (fst ss) (Timeout r) =
     (fst ss)\<lparr>liveRecorderRef := Some (length (recorders (fst ss))),
       recorders := (recorders (fst ss))[r := \<lparr>rec_state = inactive, gathered = [], chunks = [segment]\<rparr>]
                      @ [\<lparr>rec_state = recording, gathered = [], chunks = []\<rparr>],
       sent := sent (fst ss) @ [segment]\<rparr>"
    by (rule timeout_respawns [OF o act ref rec seg size track ctor])
  have hook: "fst ss' = step env (fst ss) (Timeout r)"
    by (simp add: ss' fst_liveStep)
  have fx: "snd ss' = settle pf segment (snd ss)"
    by (simp add: ss' liveStep_def Let_def stepped del: step.simps)
  have next_run: "fst ss' = run env (events @ [Timeout r])"
    by (simp add: hook run run_def del: step.simps)
  have loop: "liveLoopActiveRef (fst ss') \<and>
      liveSubtitlesEnabled (fst ss') = liveSubtitlesEnabled (fst ss) \<and>
      liveError (fst ss') = liveError (fst ss) \<and>
      liveRecorderRef (fst ss') = Some (length (recorders (fst ss))) \<and>
      rec_state (recorders (fst ss') ! length (recorders (fst ss))) = recording"
    using act by (simp add: hook stepped nth_append del: step.simps)
  have up: "uploads (snd ss') = uploads (snd ss) @ [segment]"
    by (simp add: fx settle_fallback [OF size fails] split: sum.splits)
  have rest: "case transcribeBlob pf segment of
         Inr response \<Rightarrow>
           subtitles (snd ss') = onTranscription (Some response) (subtitles (snd ss)) \<and>
           uploadFailure (snd ss') = uploadFailure (snd ss)
       | Inl message \<Rightarrow>
           subtitles (snd ss') = subtitles (snd ss) \<and>
           uploadFailure (snd ss') = Some (''Upload failed: '' @ message)"
    by (simp add: fx settle_fallback [OF size fails] split: sum.splits)
  show "fst ss = run env events \<and> fst ss' = run env (events @ [Timeout r]) \<and>
      uploads (snd ss') = uploads (snd ss) @ [segment] \<and>
      liveLoopActiveRef (fst ss') \<and>
      liveSubtitlesEnabled (fst ss') = liveSubtitlesEnabled (fst ss) \<and>
      liveError (fst ss') = liveError (fst ss) \<and>
      liveRecorderRef (fst ss') = Some (length (recorders (fst ss))) \<and>
      rec_state (recorders (fst ss') ! length (recorders (fst ss))) = recording \<and>
      (case transcribeBlob pf segment of
         Inr response \<Rightarrow>
           subtitles (snd ss') = onTranscription (Some response) (subtitles (snd ss)) \<and>
           uploadFailure (snd ss') = uploadFailure (snd ss)
       | Inl message \<Rightarrow>
           subtitles (snd ss') = subtitles (snd ss) \<and>
           uploadFailure (snd ss') = Some (''Upload failed: '' @ message))"
    using run next_run up loop rest by blast
next
  assume h: "st = streamSession pf os mimeType cs \<and>
    ondataavailable os c (fst st) = (s, Some seg) \<and>
    ensureWavBlob pf (newBlob seg mimeType) TARGET_SAMPLE_RATE = Inl e \<and>
    st' = streamStep pf os mimeType st c"
  then have st: "st = streamSession pf os mimeType cs"
    and st': "st' = streamStep pf os mimeType st c"
    and sealed: "ondataavailable os c (fst st) = (s, Some seg)"
    and fails: "ensureWavBlob pf (newBlob seg mimeType) TARGET_SAMPLE_RATE = Inl e"
    by blast+
  have refs: "fst st = fst (feed os cs initial)" by (simp add: st fst_streamSession)
  have c: "0 < blob_size c \<and> seg = segmentChunksRef (fst st) @ [c]"
    using sealed by (auto simp: ondataavailable_def Let_def split: if_splits)
  then have size: "0 < blob_size (newBlob seg mimeType)"
    by (simp add: newBlob_def blob_size_def)
  have hook: "fst st' = s" by (simp add: st' streamStep_def sealed)
  have next_refs: "fst st' = fst (feed os (cs @ [c]) initial)"
    by (simp add: hook fst_feed_snoc refs [symmetric] sealed)
  have fx: "snd st' = settle pf (newBlob seg mimeType) (snd st)"
    by (simp add: st' streamStep_def sealed)
  have up: "uploads (snd st') = uploads (snd st) @ [newBlob seg mimeType]"
    by (simp add: fx settle_fallback [OF size fails] split: sum.splits)
  have rest: "case transcribeBlob pf (newBlob seg mimeType) of
         Inr response \<Rightarrow>
           subtitles (snd st') = onTranscription (Some response) (subtitles (snd st)) \<and>
           uploadFailure (snd st') = uploadFailure (snd st)
       | Inl message \<Rightarrow>
           subtitles (snd st') = subtitles (snd st) \<and>
           uploadFailure (snd st') = Some (''Upload failed: '' @ message)"
    by (simp add: fx settle_fallback [OF size fails] split: sum.splits)
  show "fst st = fst (feed os cs initial) \<and> fst st' = fst (feed os (cs @ [c]) initial) \<and>
      fst st' = s \<and>
      uploads (snd st') = uploads (snd st) @ [newBlob seg mimeType] \<and>
      (case transcribeBlob pf (newBlob seg mimeType) of
         Inr response \<Rightarrow>
           subtitles (snd st') = onTranscription (Some response) (subtitles (snd st)) \<and>
           uploadFailure (snd st') = uploadFailure (snd st)
       | Inl message \<Rightarrow>
           subtitles (snd st') = subtitles (snd st) \<and>
           uploadFailure (snd st') = Some (''Upload failed: '' @ message))"
    using refs next_refs hook up rest by blast
qed

lemma fst_liveSoFar: "fst liveSoFar = liveRun"
  by (simp add: liveSoFar_def fst_liveSession liveRun_def)

lemma fst_streamSoFar:
  "fst streamSoFar =
     \<lparr>chunksRef = chunksTo 3, segmentChunksRef = chunksTo 3, segmentElapsedMsRef = 750\<rparr>"
  using feed_no_seal [of "streaming (Some 1)" "chunksTo 3" initial]
  by (simp add: streamSoFar_def fst_streamSession streaming_simps chunksTo_full
      length_chunksTo timesliceMs_def initial_def)

lemma deaf_fails_any:
  "\<not> str_includes (btype b) ''wav'' \<Longrightarrow>
   ensureWavBlob deafPlatform b TARGET_SAMPLE_RATE = Inl DecodeError"
  by (simp add: ensureWavBlob_def deafPlatform_def)

theorem failed_conversion_uploads_raw_and_session_continues_witness:
  "posted (sendChunkToTranscription deafPlatform (testChunk 3)) = Some (testChunk 3) \<and>
   liveLoopActiveRef (fst liveSoFar) \<and> liveRecorderRef (fst liveSoFar) = Some 0 \<and>
   ensureWavBlob deafPlatform partialSegment TARGET_SAMPLE_RATE = Inl DecodeError \<and>
   uploads (snd (liveStep deafPlatform browser liveSoFar (Timeout 0)))
     = uploads (snd liveSoFar) @ [partialSegment] \<and>
   liveLoopActiveRef (fst (liveStep deafPlatform browser liveSoFar (Timeout 0))) \<and>
   liveRecorderRef (fst (liveStep deafPlatform browser liveSoFar (Timeout 0))) = Some 1 \<and>
   rec_state (recorders (fst (liveStep deafPlatform browser liveSoFar (Timeout 0))) ! 1)
     = recording \<and>
   snd (ondataavailable (streaming (Some 1)) (testChunk 4) (fst streamSoFar))
     = Some (chunksTo 3 @ [testChunk 4]) \<and>
   ensureWavBlob deafPlatform (newBlob (chunksTo 3 @ [testChunk 4]) ''audio/webm'')
     TARGET_SAMPLE_RATE = Inl DecodeError \<and>
   uploads (snd (streamStep deafPlatform (streaming (Some 1)) ''audio/webm'' streamSoFar
                   (testChunk 4)))
     = uploads (snd streamSoFar) @ [newBlob (chunksTo 3 @ [testChunk 4]) ''audio/webm'']"
proof -
  note t = failed_conversion_uploads_raw_and_session_continues
  have a: "0 < blob_size (testChunk 3) \<and>
      ensureWavBlob deafPlatform (testChunk 3) TARGET_SAMPLE_RATE = Inl DecodeError \<and>
      sendChunkToTranscription deafPlatform (testChunk 3)
        = sendChunkToTranscription deafPlatform (testChunk 3)"
    by (simp add: chunk_size deaf_fails)
  note A = t [where chunk = "testChunk 3" and pf = deafPlatform and e = DecodeError
      and outcome = "sendChunkToTranscription deafPlatform (testChunk 3)",
      THEN conjunct1, rule_format, OF a, THEN conjunct1]
  have fails: "ensureWavBlob deafPlatform partialSegment TARGET_SAMPLE_RATE = Inl DecodeError"
    by (rule deaf_fails_any) (simp add: partialSegment_def)
  have b: "liveSoFar = liveSession deafPlatform browser [StartLive, Captured 0 [1, 2, 3]] \<and>
      liveLoopActiveRef (fst liveSoFar) \<and> liveRecorderRef (fst liveSoFar) = Some 0 \<and>
      rec_state (recorders (fst liveSoFar) ! 0) = recording \<and>
      partialSegment = \<lparr>btype = mimeOf browser, bdata = gathered (recorders (fst liveSoFar) ! 0)\<rparr> \<and>
      0 < blob_size partialSegment \<and>
      ensureWavBlob deafPlatform partialSegment TARGET_SAMPLE_RATE = Inl DecodeError \<and>
      audioTrack browser \<and> \<not> recorderThrows browser \<and>
      liveStep deafPlatform browser liveSoFar (Timeout 0)
        = liveStep deafPlatform browser liveSoFar (Timeout 0)"
  proof (intro conjI)
    show "liveSoFar = liveSession deafPlatform browser [StartLive, Captured 0 [1, 2, 3]]"
      by (rule liveSoFar_def)
    show "partialSegment = \<lparr>btype = mimeOf browser, bdata = gathered (recorders (fst liveSoFar) ! 0)\<rparr>"
      by (simp add: fst_liveSoFar liveRun_eq partialSegment_def mimeOf_def browser_def)
    show "0 < blob_size partialSegment"
      by (simp add: partialSegment_def blob_size_def)
    show "ensureWavBlob deafPlatform partialSegment TARGET_SAMPLE_RATE = Inl DecodeError"
      by (rule fails)
  qed (simp_all add: fst_liveSoFar liveRun_eq browser_def)
  note B = t [where ss = liveSoFar and pf = deafPlatform and env = browser and r = 0
      and segment = partialSegment and e = DecodeError
      and events = "[StartLive, Captured 0 [1, 2, 3]]"
      and ss' = "liveStep deafPlatform browser liveSoFar (Timeout 0)",
      THEN conjunct2, THEN conjunct1, rule_format, OF b]
  have len: "length (recorders (fst liveSoFar)) = 1"
    by (simp add: fst_liveSoFar liveRun_eq)
  let ?os = "streaming (Some 1)"
  let ?seg = "chunksTo 3 @ [testChunk 4]"
  let ?s = "fst (ondataavailable ?os (testChunk 4) (fst streamSoFar))"
  have seal: "ondataavailable ?os (testChunk 4) (fst streamSoFar) = (?s, Some ?seg)"
    using ondataavailable_seal [of ?os "testChunk 4" "fst streamSoFar"]
    by (simp add: fst_streamSoFar streaming_simps chunk_size timesliceMs_def)
  have fails2: "ensureWavBlob deafPlatform (newBlob ?seg ''audio/webm'') TARGET_SAMPLE_RATE
      = Inl DecodeError"
    by (rule deaf_fails_any) (simp add: newBlob_def)
  have c: "streamSoFar = streamSession deafPlatform ?os ''audio/webm'' (chunksTo 3) \<and>
      ondataavailable ?os (testChunk 4) (fst streamSoFar) = (?s, Some ?seg) \<and>
      ensureWavBlob deafPlatform (newBlob ?seg ''audio/webm'') TARGET_SAMPLE_RATE
        = Inl DecodeError \<and>
      streamStep deafPlatform ?os ''audio/webm'' streamSoFar (testChunk 4)
        = streamStep deafPlatform ?os ''audio/webm'' streamSoFar (testChunk 4)"
  proof (intro conjI)
    show "streamSoFar = streamSession deafPlatform ?os ''audio/webm'' (chunksTo 3)"
      by (rule streamSoFar_def)
  qed (rule seal fails2 refl)+
  note C = t [where st = streamSoFar and pf = deafPlatform and os = ?os
      and mimeType = "''audio/webm''" and cs = "chunksTo 3" and c = "testChunk 4"
      and s = ?s and seg = ?seg and e = DecodeError
      and st' = "streamStep deafPlatform ?os ''audio/webm'' streamSoFar (testChunk 4)",
      THEN conjunct2, THEN conjunct2, rule_format, OF c]
  have sealed: "snd (ondataavailable ?os (testChunk 4) (fst streamSoFar)) = Some ?seg"
    by (subst seal) simp
  note B3 = B [THEN conjunct2, THEN conjunct2, THEN conjunct1]
  note B4 = B [THEN conjunct2, THEN conjunct2, THEN conjunct2, THEN conjunct1]
  note B7 = B [THEN conjunct2, THEN conjunct2, THEN conjunct2, THEN conjunct2, THEN conjunct2,
      THEN conjunct2, THEN conjunct1, unfolded len]
  note B8 = B [THEN conjunct2, THEN conjunct2, THEN conjunct2, THEN conjunct2, THEN conjunct2,
      THEN conjunct2, THEN conjunct2, THEN conjunct1, unfolded len]
  note C4 = C [THEN conjunct2, THEN conjunct2, THEN conjunct2, THEN conjunct1]
  note b2 = b [THEN conjunct2, THEN conjunct1]
  note b3 = b [THEN conjunct2, THEN conjunct2, THEN conjunct1]
  show ?thesis
    by (intro conjI) (rule A B3 B4 B7 B8 C4 b2 b3 fails fails2 sealed)+
qed

text \<open>
  The claim C7 as stated fails: on a platform that cannot decode the segment, the segment
  is still uploaded.
\<close>

theorem failed_conversion_is_not_dropped:
  "ensureWavBlob deafPlatform (testChunk 4) TARGET_SAMPLE_RATE = Inl DecodeError \<and>
   posted (sendChunkToTranscription deafPlatform (testChunk 4)) = Some (testChunk 4) \<and>
   posted (sendChunkToTranscription deafPlatform (testChunk 4)) \<noteq> None"
  by (simp add: send_fallback [OF chunk_size not_wav_chunk deaf_fails] deaf_fails
      deaf_transcribes)

end
